theory Spec2Isabelle
  imports Main "HOL-Library.AList"
begin

section \<open>Containers\<close>

text \<open>
  The engine keeps its data in JavaScript \<^verbatim>\<open>Map\<close> and \<^verbatim>\<open>Set\<close> objects, which iterate
  in insertion order. A \<^verbatim>\<open>Map\<close> is an association list: \<^verbatim>\<open>get\<close> is \<^const>\<open>map_of\<close>,
  \<^verbatim>\<open>set\<close> is \<^const>\<open>AList.update\<close> (an existing key keeps its place, a new key goes to
  the end), \<^verbatim>\<open>delete\<close> is \<^const>\<open>AList.delete\<close>. A \<^verbatim>\<open>Set\<close> is a list without
  repetition: \<^verbatim>\<open>add\<close> is \<open>setAdd\<close>, \<^verbatim>\<open>delete\<close> is \<^const>\<open>removeAll\<close>.
  Numbers are the integers the database hands out (ids, durations in hours).
\<close>

definition setAdd :: "'a \<Rightarrow> 'a list \<Rightarrow> 'a list" where
  "setAdd x xs = (if x \<in> set xs then xs else xs @ [x])"

definition has :: "('k \<times> 'v) list \<Rightarrow> 'k \<Rightarrow> bool" where
  "has m k = (map_of m k \<noteq> None)"

section \<open>Data model\<close>

text \<open>The class \<^verbatim>\<open>Todo\<close>; its field \<^verbatim>\<open>id\<close> is \<open>todo_id\<close> here.\<close>

record todo =
  todo_id :: int
  title :: string
  dueDate :: string
  imageUrl :: string
  duration :: int
  minimumHours :: int

text \<open>
  The fields of \<^verbatim>\<open>TodoDAG\<close>. The reverse adjacency \<^verbatim>\<open>rev\<close> is \<open>rev_adj\<close>. The type
  parameter is the element type of one forward adjacency entry: \<open>int\<close> in
  \<^verbatim>\<open>src/app/utils/dag.ts\<close>, where \<^verbatim>\<open>adj\<close> is a \<^verbatim>\<open>Map<number, Set<number>>\<close>, and
  \<open>int \<times> int\<close> (dependent, weight) in the second copy of the class
  (\<^verbatim>\<open>src/unnamed/part_005\<close>), where it is a \<^verbatim>\<open>Map<number, Map<number, number>>\<close>.
  Operations of the second copy carry the suffix \<open>_w\<close>.
\<close>

record 'e dag =
  adj :: "(int \<times> 'e list) list"
  rev_adj :: "(int \<times> int list) list"
  safeTargetsCache :: "(int \<times> int list) list"
  idToTodo :: "(int \<times> todo) list"

definition emptyDag :: "'e dag" where
  "emptyDag = \<lparr>adj = [], rev_adj = [], safeTargetsCache = [], idToTodo = []\<rparr>"

section \<open>Graph store\<close>

definition allTodoIds :: "'e dag \<Rightarrow> int list" where
  "allTodoIds s = map fst (idToTodo s)"

definition rootNodes :: "'e dag \<Rightarrow> int list" where
  "rootNodes s = map fst (filter (\<lambda>(nodeId, incomingEdges). length incomingEdges = 0) (rev_adj s))"

definition numTodos :: "'e dag \<Rightarrow> nat" where
  "numTodos s = length (idToTodo s)"

definition addNode :: "'e dag \<Rightarrow> int \<Rightarrow> 'e dag" where
  "addNode s node =
     (if \<not> has (adj s) node
      then s\<lparr>adj := AList.update node [] (adj s), rev_adj := AList.update node [] (rev_adj s)\<rparr>
      else s)"

definition hasTodo :: "'e dag \<Rightarrow> int \<Rightarrow> bool" where
  "hasTodo s todoId = has (idToTodo s) todoId"

definition getParentIds :: "'e dag \<Rightarrow> int \<Rightarrow> int list" where
  "getParentIds s todoId = (case map_of (rev_adj s) todoId of None \<Rightarrow> [] | Some ps \<Rightarrow> ps)"

definition getTodoWithId :: "'e dag \<Rightarrow> int \<Rightarrow> todo option" where
  "getTodoWithId s i = (if has (idToTodo s) i then map_of (idToTodo s) i else None)"

definition getTodosByIds :: "'e dag \<Rightarrow> int list \<Rightarrow> todo list" where
  "getTodosByIds s ids = List.map_filter (\<lambda>i. map_of (idToTodo s) i) ids"

text \<open>
  A result \<open>None\<close> of an operation stands for a read of a key that the map does not
  hold: the source then throws a \<^verbatim>\<open>TypeError\<close> (a member of \<^verbatim>\<open>undefined\<close>) or goes on
  with \<^verbatim>\<open>NaN\<close>. No state that satisfies \<open>wf_dag\<close> below takes such a branch.
\<close>

definition hasDependency :: "int dag \<Rightarrow> int \<Rightarrow> int \<Rightarrow> bool option" where
  "hasDependency s from to =
     (if \<not> hasTodo s from \<or> \<not> hasTodo s to then Some False
      else (case map_of (adj s) from of None \<Rightarrow> None | Some ns \<Rightarrow> Some (to \<in> set ns)))"

definition getChildrenOf :: "int dag \<Rightarrow> int \<Rightarrow> int list" where
  "getChildrenOf s todoId = (case map_of (adj s) todoId of None \<Rightarrow> [] | Some ns \<Rightarrow> ns)"

section \<open>Scheduler\<close>

text \<open>
  The state of the loop of Kahn's algorithm: the work queue and the two local maps
  \<^verbatim>\<open>earliestStart\<close> and \<^verbatim>\<open>indegree\<close>.
\<close>

type_synonym kahn_state = "int list \<times> (int \<times> int) list \<times> (int \<times> int) list"

text \<open>The inner \<^verbatim>\<open>for\<close> loop over the dependents of the task just taken from the queue.\<close>

fun visitNeighbors :: "int \<Rightarrow> int list \<Rightarrow> kahn_state \<Rightarrow> kahn_state option" where
  "visitNeighbors finishTime [] st = Some st"
| "visitNeighbors finishTime (neighbor # rest) (queue, earliestStart, indegree) =
     (case (map_of earliestStart neighbor, map_of indegree neighbor) of
        (Some e, Some d) \<Rightarrow>
          (let newStart = max e finishTime;
               earliestStart' = AList.update neighbor newStart earliestStart;
               indegree' = AList.update neighbor (d - 1) indegree;
               queue' = (if d - 1 = 0 then queue @ [neighbor] else queue)
           in visitNeighbors finishTime rest (queue', earliestStart', indegree'))
      | _ \<Rightarrow> None)"

text \<open>What bounds the work left: the queued tasks and the tasks still waiting for a prerequisite.\<close>

definition pending :: "kahn_state \<Rightarrow> nat" where
  "pending st = (case st of (queue, earliestStart, indegree) \<Rightarrow>
     length queue + length (filter (\<lambda>(k, v). 0 < v) indegree))"

lemma update_positive_le:
  "map_of indegree k = Some d \<Longrightarrow>
   length (filter (\<lambda>(k, v). 0 < v) (AList.update k (d - 1) indegree))
     + (if d - 1 = 0 then 1 else 0)
   \<le> length (filter (\<lambda>(k, v). (0::int) < v) indegree)"
proof (induction indegree)
  case Nil
  then show ?case by simp
next
  case (Cons p ps)
  then show ?case by (cases p) (auto split: if_splits)
qed

lemma visitNeighbors_pending:
  "visitNeighbors finishTime ns st = Some st' \<Longrightarrow> pending st' \<le> pending st"
proof (induction finishTime ns st rule: visitNeighbors.induct)
  case (1 finishTime st)
  then show ?case by simp
next
  case (2 finishTime neighbor rest queue earliestStart indegree)
  from "2.prems" obtain e d where
    e: "map_of earliestStart neighbor = Some e" and d: "map_of indegree neighbor = Some d"
    by (auto split: option.splits)
  let ?st1 = "(if d - 1 = 0 then queue @ [neighbor] else queue,
               AList.update neighbor (max e finishTime) earliestStart,
               AList.update neighbor (d - 1) indegree)"
  from "2.prems" e d have run: "visitNeighbors finishTime rest ?st1 = Some st'"
    by (simp add: Let_def)
  have "pending st' \<le> pending ?st1"
    using "2.IH"[OF refl e d refl refl refl refl] run by (simp add: Let_def)
  also have "pending ?st1 \<le> pending (queue, earliestStart, indegree)"
    using update_positive_le[OF d] by (cases "d - 1 = 0") (simp_all add: pending_def)
  finally show ?case .
qed

text \<open>
  The \<^verbatim>\<open>while (queue.length > 0)\<close> loop. The first argument gives the dependents the
  loop iterates over for the current task; \<open>duration_m\<close> is the local map \<^verbatim>\<open>duration\<close>.
\<close>

function kahnLoop :: "(int \<Rightarrow> int list) \<Rightarrow> (int \<times> int) list \<Rightarrow> kahn_state \<Rightarrow> kahn_state option" where
  "kahnLoop nbrs duration_m ([], earliestStart, indegree) = Some ([], earliestStart, indegree)"
| "kahnLoop nbrs duration_m (current # queue, earliestStart, indegree) =
     (case (map_of earliestStart current, map_of duration_m current) of
        (Some e, Some d) \<Rightarrow>
          (case visitNeighbors (e + d) (nbrs current) (queue, earliestStart, indegree) of
             None \<Rightarrow> None
           | Some st' \<Rightarrow> kahnLoop nbrs duration_m st')
      | _ \<Rightarrow> None)"
  by pat_completeness auto
termination
proof (relation "measure (\<lambda>(nbrs, duration_m, st). pending st)")
  show "wf (measure (\<lambda>(nbrs, duration_m, st). pending st))" by simp
next
  fix nbrs :: "int \<Rightarrow> int list" and duration_m :: "(int \<times> int) list"
    and current queue earliestStart indegree x y e d st'
  assume "visitNeighbors (e + d) (nbrs current) (queue, earliestStart, indegree) = Some st'"
  from visitNeighbors_pending[OF this]
  show "((nbrs, duration_m, st'), (nbrs, duration_m, current # queue, earliestStart, indegree))
          \<in> measure (\<lambda>(nbrs, duration_m, st). pending st)"
    by (simp add: pending_def)
qed

text \<open>
  The tasks in the order in which \<^verbatim>\<open>queue.shift()\<close> takes them off the queue: the
  loop above, recording each \<open>current\<close>. It is used to state how often a task is
  processed; the loop itself does not keep this list.
\<close>

function kahnOrder :: "(int \<Rightarrow> int list) \<Rightarrow> (int \<times> int) list \<Rightarrow> kahn_state \<Rightarrow> int list" where
  "kahnOrder nbrs duration_m ([], earliestStart, indegree) = []"
| "kahnOrder nbrs duration_m (current # queue, earliestStart, indegree) =
     (case (map_of earliestStart current, map_of duration_m current) of
        (Some e, Some d) \<Rightarrow>
          (case visitNeighbors (e + d) (nbrs current) (queue, earliestStart, indegree) of
             None \<Rightarrow> [current]
           | Some st' \<Rightarrow> current # kahnOrder nbrs duration_m st')
      | _ \<Rightarrow> [current])"
  by pat_completeness auto
termination
proof (relation "measure (\<lambda>(nbrs, duration_m, st). pending st)")
  show "wf (measure (\<lambda>(nbrs, duration_m, st). pending st))" by simp
next
  fix nbrs :: "int \<Rightarrow> int list" and duration_m :: "(int \<times> int) list"
    and current queue earliestStart indegree x y e d st'
  assume "visitNeighbors (e + d) (nbrs current) (queue, earliestStart, indegree) = Some st'"
  from visitNeighbors_pending[OF this]
  show "((nbrs, duration_m, st'), (nbrs, duration_m, current # queue, earliestStart, indegree))
          \<in> measure (\<lambda>(nbrs, duration_m, st). pending st)"
    by (simp add: pending_def)
qed

text \<open>The first \<^verbatim>\<open>forEach\<close> of \<^verbatim>\<open>calculateEarliestStartTimes\<close> in \<^verbatim>\<open>dag.ts\<close>.\<close>

fun initMaps :: "(int \<times> int list) list \<Rightarrow> todo list
    \<Rightarrow> (int \<times> int) list \<times> (int \<times> int) list \<times> (int \<times> int) list
    \<Rightarrow> ((int \<times> int) list \<times> (int \<times> int) list \<times> (int \<times> int) list) option" where
  "initMaps r [] maps = Some maps"
| "initMaps r (t # ts) (duration_m, earliestStart, indegree) =
     (case map_of r (todo_id t) of
        None \<Rightarrow> None
      | Some incoming \<Rightarrow>
          initMaps r ts (AList.update (todo_id t) (duration t) duration_m,
                         AList.update (todo_id t) 0 earliestStart,
                         AList.update (todo_id t) (int (length incoming)) indegree))"

text \<open>The last \<^verbatim>\<open>forEach\<close>: \<^verbatim>\<open>todo.minimumHours = earliestStart.get(todo.id) || 0\<close>.\<close>

definition storeMinimumHours :: "(int \<times> int) list \<Rightarrow> (int \<times> todo) list \<Rightarrow> (int \<times> todo) list" where
  "storeMinimumHours earliestStart todos =
     map (\<lambda>(k, t). (k, t\<lparr>minimumHours :=
            (case map_of earliestStart (todo_id t) of None \<Rightarrow> 0 | Some v \<Rightarrow> v)\<rparr>)) todos"

definition calculateEarliestStartTimes :: "int dag \<Rightarrow> int dag option" where
  "calculateEarliestStartTimes s =
     (case initMaps (rev_adj s) (map snd (idToTodo s)) ([], [], []) of
        None \<Rightarrow> None
      | Some (duration_m, earliestStart, indegree) \<Rightarrow>
          (case kahnLoop (\<lambda>current. case map_of (adj s) current of None \<Rightarrow> [] | Some ns \<Rightarrow> ns)
                  duration_m (rootNodes s, earliestStart, indegree) of
             None \<Rightarrow> None
           | Some (queue, earliestStart', indegree') \<Rightarrow>
               Some (s\<lparr>idToTodo := storeMinimumHours earliestStart' (idToTodo s)\<rparr>)))"

section \<open>Mutators\<close>

definition addTodo :: "int dag \<Rightarrow> todo \<Rightarrow> int dag option" where
  "addTodo s t =
     calculateEarliestStartTimes
       (addNode (s\<lparr>idToTodo := AList.update (todo_id t) t (idToTodo s)\<rparr>) (todo_id t))"

text \<open>The result carries the returned flag and the state after the call.\<close>

definition addDependency :: "int dag \<Rightarrow> int \<Rightarrow> int \<Rightarrow> (bool \<times> int dag) option" where
  "addDependency s from to =
     (if \<not> hasTodo s from \<or> \<not> hasTodo s to then Some (False, s)
      else (case (map_of (adj s) from, map_of (rev_adj s) to) of
              (Some ns, Some ps) \<Rightarrow>
                Some (True, s\<lparr>adj := AList.update from (setAdd to ns) (adj s),
                               rev_adj := AList.update to (setAdd from ps) (rev_adj s),
                               safeTargetsCache := []\<rparr>)
            | _ \<Rightarrow> None))"

definition deleteDependency :: "int dag \<Rightarrow> int \<Rightarrow> int \<Rightarrow> int dag option" where
  "deleteDependency s from to =
     (case hasDependency s from to of
        None \<Rightarrow> None
      | Some False \<Rightarrow> Some s
      | Some True \<Rightarrow>
          calculateEarliestStartTimes
            (s\<lparr>adj := (case map_of (adj s) from of
                          None \<Rightarrow> adj s
                        | Some ns \<Rightarrow> AList.update from (removeAll to ns) (adj s)),
                rev_adj := (case map_of (rev_adj s) to of
                          None \<Rightarrow> rev_adj s
                        | Some ps \<Rightarrow> AList.update to (removeAll from ps) (rev_adj s)),
                safeTargetsCache := []\<rparr>))"

definition deleteNode :: "int dag \<Rightarrow> int \<Rightarrow> int dag option" where
  "deleteNode s node =
     calculateEarliestStartTimes
       (s\<lparr>idToTodo := AList.delete node (idToTodo s),
           adj := map (\<lambda>(k, from). (k, removeAll node from)) (AList.delete node (adj s)),
           rev_adj := map (\<lambda>(k, to). (k, removeAll node to)) (AList.delete node (rev_adj s)),
           safeTargetsCache := []\<rparr>)"

section \<open>Cycle guard\<close>

text \<open>
  The \<^verbatim>\<open>while (stack.length > 0)\<close> loop of \<^verbatim>\<open>getSafeTargets\<close> in \<^verbatim>\<open>dag.ts\<close>. The head of
  the list is the top of the stack: \<^verbatim>\<open>pop\<close> takes the head, and the parents pushed one
  after the other end up in reverse order on top.
\<close>

definition allParents :: "'e dag \<Rightarrow> int set" where
  "allParents s = (\<Union>(k, ps)\<in>set (rev_adj s). set ps)"

lemma getParentIds_allParents: "set (getParentIds s n) \<subseteq> allParents s"
proof (cases "map_of (rev_adj s) n")
  case None
  then show ?thesis by (simp add: getParentIds_def)
next
  case (Some ps)
  then have "(n, ps) \<in> set (rev_adj s)" by (rule map_of_SomeD)
  then show ?thesis using Some by (auto simp: getParentIds_def allParents_def)
qed

function ancestorsLoop :: "'e dag \<Rightarrow> int list \<Rightarrow> int list \<Rightarrow> int list" where
  "ancestorsLoop s [] ancestors = ancestors"
| "ancestorsLoop s (node # stack) ancestors =
     (if node \<in> set ancestors then ancestorsLoop s stack ancestors
      else ancestorsLoop s (rev (getParentIds s node) @ stack) (ancestors @ [node]))"
  by pat_completeness auto
termination
proof (relation "measures [\<lambda>(s, stack, ancestors). card ((set stack \<union> allParents s) - set ancestors),
                           \<lambda>(s, stack, ancestors). length stack]")
  show "wf (measures [\<lambda>(s, stack, ancestors). card ((set stack \<union> allParents s) - set ancestors),
                           \<lambda>(s, stack, ancestors). length stack])" by simp
next
  fix s :: "'e dag" and node :: int and stack ancestors :: "int list"
  assume "node \<in> set ancestors"
  have "(set stack \<union> allParents s) - set ancestors \<subseteq> (set (node # stack) \<union> allParents s) - set ancestors"
    by auto
  moreover have "finite ((set (node # stack) \<union> allParents s) - set ancestors)"
    by (auto simp: allParents_def)
  ultimately have "card ((set stack \<union> allParents s) - set ancestors)
      \<le> card ((set (node # stack) \<union> allParents s) - set ancestors)" by (rule card_mono[rotated])
  then show "((s, stack, ancestors), (s, node # stack, ancestors))
      \<in> measures [\<lambda>(s, stack, ancestors). card ((set stack \<union> allParents s) - set ancestors),
                           \<lambda>(s, stack, ancestors). length stack]" by auto
next
  fix s :: "'e dag" and node :: int and stack ancestors :: "int list"
  assume n: "node \<notin> set ancestors"
  have "(set (rev (getParentIds s node) @ stack) \<union> allParents s) - set (ancestors @ [node])
      \<subset> (set (node # stack) \<union> allParents s) - set ancestors"
    using n getParentIds_allParents[of s node] by auto
  moreover have "finite ((set (node # stack) \<union> allParents s) - set ancestors)"
    by (auto simp: allParents_def)
  ultimately have "card ((set (rev (getParentIds s node) @ stack) \<union> allParents s) - set (ancestors @ [node]))
      < card ((set (node # stack) \<union> allParents s) - set ancestors)" by (rule psubset_card_mono[rotated])
  then show "((s, rev (getParentIds s node) @ stack, ancestors @ [node]), (s, node # stack, ancestors))
      \<in> measures [\<lambda>(s, stack, ancestors). card ((set stack \<union> allParents s) - set ancestors),
                           \<lambda>(s, stack, ancestors). length stack]" by auto
qed

text \<open>The result carries the returned array and the state with the cache filled.\<close>

definition getSafeTargets :: "int dag \<Rightarrow> int \<Rightarrow> int list \<times> int dag" where
  "getSafeTargets s from =
     (case map_of (safeTargetsCache s) from of
        Some cached \<Rightarrow> (cached, s)
      | None \<Rightarrow>
          (let ancestors = ancestorsLoop s [from] [];
               safe = filter (\<lambda>i. i \<notin> set ancestors) (allTodoIds s)
           in (safe, s\<lparr>safeTargetsCache := AList.update from safe (safeTargetsCache s)\<rparr>)))"

section \<open>Critical-path finder\<close>

text \<open>
  \<^verbatim>\<open>findMaxPath\<close> with its memo map threaded through, and the \<^verbatim>\<open>for\<close> loop over
  \<^verbatim>\<open>neighbors.entries()\<close> as \<open>tryNeighbors\<close>. The first argument is the depth of call stack
  left: the result is \<open>None\<close> when the recursion goes deeper, where JavaScript throws a
  \<^verbatim>\<open>RangeError\<close>. \<open>entries\<close> gives, for a task, the pairs the loop destructures as
  \<^verbatim>\<open>[neighbor, edgeWeight]\<close>. In the loop state \<open>maxWeight = None\<close> stands for \<^verbatim>\<open>-Infinity\<close>;
  after the loop over a non-empty collection it is a number, so the branch for \<open>None\<close> there is
  never taken.
\<close>

type_synonym memo = "(int \<times> (int \<times> int list)) list"

fun findMaxPath :: "nat \<Rightarrow> (int \<Rightarrow> (int \<times> int) list option) \<Rightarrow> memo \<Rightarrow> int
      \<Rightarrow> ((int \<times> int list) \<times> memo) option"
  and tryNeighbors :: "nat \<Rightarrow> (int \<Rightarrow> (int \<times> int) list option) \<Rightarrow> memo \<Rightarrow> (int \<times> int) list
      \<Rightarrow> int option \<times> int list \<Rightarrow> ((int option \<times> int list) \<times> memo) option" where
  "findMaxPath 0 entries memo node = None"
| "findMaxPath (Suc depth) entries memo node =
     (case map_of memo node of
        Some result \<Rightarrow> Some (result, memo)
      | None \<Rightarrow>
          (case entries node of
             None \<Rightarrow> Some ((0, [node]), AList.update node (0, [node]) memo)
           | Some [] \<Rightarrow> Some ((0, [node]), AList.update node (0, [node]) memo)
           | Some (e # es) \<Rightarrow>
               (case tryNeighbors depth entries memo (e # es) (None, []) of
                  None \<Rightarrow> None
                | Some ((maxWeight, bestPath), memo') \<Rightarrow>
                    (case maxWeight of
                       None \<Rightarrow> None
                     | Some w \<Rightarrow>
                         Some ((w, node # bestPath),
                               AList.update node (w, node # bestPath) memo')))))"
| "tryNeighbors depth entries memo [] acc = Some (acc, memo)"
| "tryNeighbors depth entries memo ((neighbor, edgeWeight) # rest) (maxWeight, bestPath) =
     (case findMaxPath depth entries memo neighbor of
        None \<Rightarrow> None
      | Some ((weight, path), memo') \<Rightarrow>
          (let totalWeight = edgeWeight + weight in
           if (case maxWeight of None \<Rightarrow> True | Some m \<Rightarrow> totalWeight > m)
           then tryNeighbors depth entries memo' rest (Some totalWeight, path)
           else tryNeighbors depth entries memo' rest (maxWeight, bestPath)))"

text \<open>
  What \<^verbatim>\<open>neighbors.entries()\<close> yields. In \<^verbatim>\<open>dag.ts\<close> \<^verbatim>\<open>neighbors\<close> is a \<^verbatim>\<open>Set<number>\<close>, whose
  entries are the pairs \<^verbatim>\<open>[value, value]\<close>; in the second copy it is the \<^verbatim>\<open>Map\<close> from
  dependent to stored weight.
\<close>

definition setEntries :: "int dag \<Rightarrow> int \<Rightarrow> (int \<times> int) list option" where
  "setEntries s node = map_option (map (\<lambda>n. (n, n))) (map_of (adj s) node)"

definition mapEntries :: "(int \<times> int) dag \<Rightarrow> int \<Rightarrow> (int \<times> int) list option" where
  "mapEntries s node = map_of (adj s) node"

definition getCriticalPath :: "nat \<Rightarrow> int dag \<Rightarrow> int \<Rightarrow> int list option" where
  "getCriticalPath depth s root =
     (if \<not> has (idToTodo s) root then Some []
      else (case findMaxPath depth (setEntries s) [] root of
              None \<Rightarrow> None
            | Some ((weight, path), memo) \<Rightarrow> Some path))"

definition getCriticalPath_w :: "nat \<Rightarrow> (int \<times> int) dag \<Rightarrow> int \<Rightarrow> int list option" where
  "getCriticalPath_w depth s root =
     (if \<not> has (idToTodo s) root then Some []
      else (case findMaxPath depth (mapEntries s) [] root of
              None \<Rightarrow> None
            | Some ((weight, path), memo) \<Rightarrow> Some path))"

section \<open>The second copy of the class: weighted forward adjacency\<close>

text \<open>
  \<^verbatim>\<open>src/unnamed/part_005\<close> stores with each forward edge the duration the prerequisite
  had when the edge was added, builds the dependents lists of the scheduler from the
  reverse adjacency, and decides safe targets by a forward search from each candidate.
\<close>

definition hasDependency_w :: "(int \<times> int) dag \<Rightarrow> int \<Rightarrow> int \<Rightarrow> bool option" where
  "hasDependency_w s from to =
     (if \<not> hasTodo s from \<or> \<not> hasTodo s to then Some False
      else (case map_of (adj s) from of None \<Rightarrow> None | Some ns \<Rightarrow> Some (has ns to)))"

definition getChildrenOf_w :: "(int \<times> int) dag \<Rightarrow> int \<Rightarrow> int list" where
  "getChildrenOf_w s todoId = (case map_of (adj s) todoId of None \<Rightarrow> [] | Some ns \<Rightarrow> map fst ns)"

text \<open>The first loop: every task gets duration, start 0, indegree 0 and no dependents.\<close>

fun initMaps_w :: "(int \<times> todo) list \<Rightarrow> int list
    \<Rightarrow> (int \<times> int list) list \<times> (int \<times> int) list \<times> (int \<times> int) list \<times> (int \<times> int) list
    \<Rightarrow> (int \<times> int list) list \<times> (int \<times> int) list \<times> (int \<times> int) list \<times> (int \<times> int) list" where
  "initMaps_w todos [] maps = maps"
| "initMaps_w todos (todoId # ids) (graph, indegree, duration_m, earliestStart) =
     initMaps_w todos ids
       (AList.update todoId [] graph,
        AList.update todoId 0 indegree,
        AList.update todoId (case map_of todos todoId of None \<Rightarrow> 0 | Some t \<Rightarrow> duration t) duration_m,
        AList.update todoId 0 earliestStart)"

text \<open>The second loop, inner part: one task's prerequisites each get it as a dependent.\<close>

fun addDependents :: "int \<Rightarrow> int list \<Rightarrow> (int \<times> int list) list \<times> (int \<times> int) list
    \<Rightarrow> ((int \<times> int list) list \<times> (int \<times> int) list) option" where
  "addDependents todoId [] gi = Some gi"
| "addDependents todoId (dep # deps) (graph, indegree) =
     (case map_of graph dep of
        None \<Rightarrow> None
      | Some ds \<Rightarrow>
          addDependents todoId deps
            (AList.update dep (ds @ [todoId]) graph,
             AList.update todoId ((case map_of indegree todoId of None \<Rightarrow> 0 | Some n \<Rightarrow> n) + 1) indegree))"

fun buildGraph :: "(int \<times> int list) list \<Rightarrow> int list \<Rightarrow> (int \<times> int list) list \<times> (int \<times> int) list
    \<Rightarrow> ((int \<times> int list) list \<times> (int \<times> int) list) option" where
  "buildGraph r [] gi = Some gi"
| "buildGraph r (todoId # ids) gi =
     (case addDependents todoId (case map_of r todoId of None \<Rightarrow> [] | Some ps \<Rightarrow> ps) gi of
        None \<Rightarrow> None
      | Some gi' \<Rightarrow> buildGraph r ids gi')"

text \<open>The last loop: each entry of \<^verbatim>\<open>earliestStart\<close> whose task exists is written to the task.\<close>

fun storeMinimumHours_w :: "(int \<times> int) list \<Rightarrow> (int \<times> todo) list \<Rightarrow> (int \<times> todo) list" where
  "storeMinimumHours_w [] todos = todos"
| "storeMinimumHours_w ((todoId, m) # rest) todos =
     storeMinimumHours_w rest
       (case map_of todos todoId of
          None \<Rightarrow> todos
        | Some t \<Rightarrow> AList.update todoId (t\<lparr>minimumHours := m\<rparr>) todos)"

definition calculateEarliestStartTimes_w :: "(int \<times> int) dag \<Rightarrow> (int \<times> int) dag option" where
  "calculateEarliestStartTimes_w s =
     (case initMaps_w (idToTodo s) (allTodoIds s) ([], [], [], []) of
        (graph0, indegree0, duration_m, earliestStart) \<Rightarrow>
          (case buildGraph (rev_adj s) (allTodoIds s) (graph0, indegree0) of
             None \<Rightarrow> None
           | Some (graph, indegree) \<Rightarrow>
               (case kahnLoop (\<lambda>current. case map_of graph current of None \<Rightarrow> [] | Some ds \<Rightarrow> ds)
                       duration_m
                       (map fst (filter (\<lambda>(i, deg). deg = 0) indegree), earliestStart, indegree) of
                  None \<Rightarrow> None
                | Some (queue, earliestStart', indegree') \<Rightarrow>
                    Some (s\<lparr>idToTodo := storeMinimumHours_w earliestStart' (idToTodo s)\<rparr>))))"

definition addTodo_w :: "(int \<times> int) dag \<Rightarrow> todo \<Rightarrow> (int \<times> int) dag option" where
  "addTodo_w s t =
     calculateEarliestStartTimes_w
       (addNode (s\<lparr>idToTodo := AList.update (todo_id t) t (idToTodo s)\<rparr>) (todo_id t))"

definition addDependency_w :: "(int \<times> int) dag \<Rightarrow> int \<Rightarrow> int \<Rightarrow> (bool \<times> (int \<times> int) dag) option" where
  "addDependency_w s from to =
     (if \<not> hasTodo s from \<or> \<not> hasTodo s to then Some (False, s)
      else (case (getTodoWithId s from, map_of (adj s) from, map_of (rev_adj s) to) of
              (Some source, Some ns, Some ps) \<Rightarrow>
                Some (True, s\<lparr>adj := AList.update from (AList.update to (duration source) ns) (adj s),
                               rev_adj := AList.update to (setAdd from ps) (rev_adj s),
                               safeTargetsCache := []\<rparr>)
            | _ \<Rightarrow> None))"

definition deleteDependency_w :: "(int \<times> int) dag \<Rightarrow> int \<Rightarrow> int \<Rightarrow> (int \<times> int) dag option" where
  "deleteDependency_w s from to =
     (case hasDependency_w s from to of
        None \<Rightarrow> None
      | Some False \<Rightarrow> Some s
      | Some True \<Rightarrow>
          calculateEarliestStartTimes_w
            (s\<lparr>adj := (case map_of (adj s) from of
                          None \<Rightarrow> adj s
                        | Some ns \<Rightarrow> AList.update from (AList.delete to ns) (adj s)),
                rev_adj := (case map_of (rev_adj s) to of
                          None \<Rightarrow> rev_adj s
                        | Some ps \<Rightarrow> AList.update to (removeAll from ps) (rev_adj s)),
                safeTargetsCache := []\<rparr>))"

definition deleteNode_w :: "(int \<times> int) dag \<Rightarrow> int \<Rightarrow> (int \<times> int) dag option" where
  "deleteNode_w s node =
     calculateEarliestStartTimes_w
       (s\<lparr>idToTodo := AList.delete node (idToTodo s),
           adj := map (\<lambda>(k, edges). (k, AList.delete node edges)) (AList.delete node (adj s)),
           rev_adj := map (\<lambda>(k, parents). (k, removeAll node parents)) (AList.delete node (rev_adj s)),
           safeTargetsCache := []\<rparr>)"

text \<open>
  The second copy: the helper \<^verbatim>\<open>isReachable\<close>, a search over the forward adjacency, and the
  loop over the candidates \<^verbatim>\<open>this.adj.keys()\<close>.
\<close>

definition allChildren :: "(int \<times> int) dag \<Rightarrow> int set" where
  "allChildren s = (\<Union>(k, ns)\<in>set (adj s). fst ` set ns)"

lemma getChildrenOf_w_allChildren: "set (getChildrenOf_w s n) \<subseteq> allChildren s"
proof (cases "map_of (adj s) n")
  case None
  then show ?thesis by (simp add: getChildrenOf_w_def)
next
  case (Some ns)
  then have "(n, ns) \<in> set (adj s)" by (rule map_of_SomeD)
  then show ?thesis using Some by (force simp: getChildrenOf_w_def allChildren_def)
qed

function reachableLoop :: "(int \<times> int) dag \<Rightarrow> int \<Rightarrow> int list \<Rightarrow> int list \<Rightarrow> bool" where
  "reachableLoop s target [] visited = False"
| "reachableLoop s target (node # stack) visited =
     (if node = target then True
      else if node \<in> set visited then reachableLoop s target stack visited
      else reachableLoop s target (rev (getChildrenOf_w s node) @ stack) (visited @ [node]))"
  by pat_completeness auto
termination
proof (relation "measures [\<lambda>(s, target, stack, visited). card ((set stack \<union> allChildren s) - set visited),
                           \<lambda>(s, target, stack, visited). length stack]")
  show "wf (measures [\<lambda>(s, target, stack, visited). card ((set stack \<union> allChildren s) - set visited),
                           \<lambda>(s, target, stack, visited). length stack])" by simp
next
  fix s :: "(int \<times> int) dag" and target node :: int and stack visited :: "int list"
  assume "node \<in> set visited"
  have "(set stack \<union> allChildren s) - set visited \<subseteq> (set (node # stack) \<union> allChildren s) - set visited"
    by auto
  moreover have "finite ((set (node # stack) \<union> allChildren s) - set visited)"
    by (auto simp: allChildren_def)
  ultimately have "card ((set stack \<union> allChildren s) - set visited)
      \<le> card ((set (node # stack) \<union> allChildren s) - set visited)" by (rule card_mono[rotated])
  then show "((s, target, stack, visited), (s, target, node # stack, visited))
      \<in> measures [\<lambda>(s, target, stack, visited). card ((set stack \<union> allChildren s) - set visited),
                           \<lambda>(s, target, stack, visited). length stack]" by auto
next
  fix s :: "(int \<times> int) dag" and target node :: int and stack visited :: "int list"
  assume n: "node \<notin> set visited"
  have "(set (rev (getChildrenOf_w s node) @ stack) \<union> allChildren s) - set (visited @ [node])
      \<subset> (set (node # stack) \<union> allChildren s) - set visited"
    using n getChildrenOf_w_allChildren[of s node] by auto
  moreover have "finite ((set (node # stack) \<union> allChildren s) - set visited)"
    by (auto simp: allChildren_def)
  ultimately have "card ((set (rev (getChildrenOf_w s node) @ stack) \<union> allChildren s) - set (visited @ [node]))
      < card ((set (node # stack) \<union> allChildren s) - set visited)" by (rule psubset_card_mono[rotated])
  then show "((s, target, rev (getChildrenOf_w s node) @ stack, visited @ [node]), (s, target, node # stack, visited))
      \<in> measures [\<lambda>(s, target, stack, visited). card ((set stack \<union> allChildren s) - set visited),
                           \<lambda>(s, target, stack, visited). length stack]" by auto
qed

definition isReachable :: "(int \<times> int) dag \<Rightarrow> int \<Rightarrow> int \<Rightarrow> bool" where
  "isReachable s start target = reachableLoop s target [start] []"

definition getSafeTargets_w :: "(int \<times> int) dag \<Rightarrow> int \<Rightarrow> int list \<times> (int \<times> int) dag" where
  "getSafeTargets_w s from =
     (case map_of (safeTargetsCache s) from of
        Some cached \<Rightarrow> (cached, s)
      | None \<Rightarrow>
          (let safe = filter (\<lambda>candidate. candidate \<noteq> from \<and> \<not> isReachable s candidate from)
                        (map fst (adj s))
           in (safe, s\<lparr>safeTargetsCache := AList.update from safe (safeTargetsCache s)\<rparr>)))"

section \<open>Notions for the properties\<close>

text \<open>The precedence edges (prerequisite, dependent) held in the forward adjacency.\<close>

definition edges :: "int dag \<Rightarrow> (int \<times> int) set" where
  "edges s = {(p, d). \<exists>ns. map_of (adj s) p = Some ns \<and> d \<in> set ns}"

definition edges_w :: "(int \<times> int) dag \<Rightarrow> (int \<times> int) set" where
  "edges_w s = {(p, d). \<exists>ns. map_of (adj s) p = Some ns \<and> d \<in> fst ` set ns}"

text \<open>
  The states the class keeps between calls: the three maps have the same keys, a task is
  stored under its own id, the sets hold no element twice, and the forward and the reverse
  adjacency mirror each other.
\<close>

definition wf_dag :: "int dag \<Rightarrow> bool" where
  "wf_dag s \<longleftrightarrow>
     distinct (map fst (adj s)) \<and> distinct (map fst (rev_adj s)) \<and> distinct (map fst (idToTodo s)) \<and>
     (\<forall>(k, ns) \<in> set (adj s). distinct ns) \<and> (\<forall>(k, ps) \<in> set (rev_adj s). distinct ps) \<and>
     set (map fst (adj s)) = set (map fst (idToTodo s)) \<and>
     set (map fst (rev_adj s)) = set (map fst (idToTodo s)) \<and>
     (\<forall>(k, t) \<in> set (idToTodo s). todo_id t = k) \<and>
     (\<forall>(p, ns) \<in> set (adj s). \<forall>d \<in> set ns. p \<in> set (getParentIds s d)) \<and>
     (\<forall>(d, ps) \<in> set (rev_adj s). \<forall>p \<in> set ps. d \<in> set (getChildrenOf s p))"

text \<open>
  The second copy seen through the first: the forward adjacency without its weights. A state
  of the second copy is well formed when this view of it is.
\<close>

definition forgetWeights :: "(int \<times> int) dag \<Rightarrow> int dag" where
  "forgetWeights s = \<lparr>adj = map (\<lambda>(k, ns). (k, map fst ns)) (adj s), rev_adj = rev_adj s,
     safeTargetsCache = safeTargetsCache s, idToTodo = idToTodo s\<rparr>"

definition wf_dag_w :: "(int \<times> int) dag \<Rightarrow> bool" where
  "wf_dag_w s = wf_dag (forgetWeights s)"

text \<open>
  The stored earliest start and the duration of a task, the tasks in the order in which the
  scheduler processes them, and what a correct schedule is: the start of a task is 0 without
  prerequisites and otherwise the latest finish of a prerequisite.
\<close>

definition startOf :: "'e dag \<Rightarrow> int \<Rightarrow> int" where
  "startOf s n = (case map_of (idToTodo s) n of None \<Rightarrow> 0 | Some t \<Rightarrow> minimumHours t)"

definition durationOf :: "'e dag \<Rightarrow> int \<Rightarrow> int" where
  "durationOf s n = (case map_of (idToTodo s) n of None \<Rightarrow> 0 | Some t \<Rightarrow> duration t)"

definition processedTasks :: "int dag \<Rightarrow> int list" where
  "processedTasks s =
     (case initMaps (rev_adj s) (map snd (idToTodo s)) ([], [], []) of
        None \<Rightarrow> []
      | Some (duration_m, earliestStart, indegree) \<Rightarrow>
          kahnOrder (\<lambda>current. case map_of (adj s) current of None \<Rightarrow> [] | Some ns \<Rightarrow> ns)
            duration_m (rootNodes s, earliestStart, indegree))"

definition processedTasks_w :: "(int \<times> int) dag \<Rightarrow> int list" where
  "processedTasks_w s =
     (case initMaps_w (idToTodo s) (allTodoIds s) ([], [], [], []) of
        (graph0, indegree0, duration_m, earliestStart) \<Rightarrow>
          (case buildGraph (rev_adj s) (allTodoIds s) (graph0, indegree0) of
             None \<Rightarrow> []
           | Some (graph, indegree) \<Rightarrow>
               kahnOrder (\<lambda>current. case map_of graph current of None \<Rightarrow> [] | Some ds \<Rightarrow> ds)
                 duration_m
                 (map fst (filter (\<lambda>(i, deg). deg = 0) indegree), earliestStart, indegree)))"

definition scheduleCorrect :: "int set \<Rightarrow> (int \<Rightarrow> int list) \<Rightarrow> (int \<Rightarrow> int) \<Rightarrow> (int \<Rightarrow> int) \<Rightarrow> bool" where
  "scheduleCorrect V parents dur start \<longleftrightarrow>
     (\<forall>d\<in>V. \<forall>p\<in>set (parents d). start p + dur p \<le> start d) \<and>
     (\<forall>n\<in>V. parents n = [] \<longrightarrow> start n = 0) \<and>
     (\<forall>n\<in>V. parents n \<noteq> [] \<longrightarrow> (\<exists>p\<in>set (parents n). start n = start p + dur p))"

text \<open>
  The safe targets in the words of the specification: the tasks \<open>d\<close> other than \<open>p\<close> from
  which \<open>p\<close> is not reachable over the forward adjacency.
\<close>

definition safeTargetsSpec :: "int set \<Rightarrow> (int \<times> int) set \<Rightarrow> int \<Rightarrow> int set" where
  "safeTargetsSpec V E p = {d \<in> V. d \<noteq> p \<and> (d, p) \<notin> E\<^sup>*}"

text \<open>The stored weight of every edge is the current duration of its prerequisite.\<close>

definition weightsCurrent :: "(int \<times> int) dag \<Rightarrow> bool" where
  "weightsCurrent s \<longleftrightarrow> (\<forall>(p, ns)\<in>set (adj s). \<forall>(d, w)\<in>set ns. w = durationOf s p)"

text \<open>
  Notions for stating what the finder returns: the successor relation of \<open>entries\<close>, tasks
  without dependents, the weight the loop reads for an edge, the weight of a path, and the
  paths from a task that end in a task without dependents.
\<close>

definition succRel :: "(int \<Rightarrow> (int \<times> int) list option) \<Rightarrow> (int \<times> int) set" where
  "succRel entries = {(n, c). \<exists>es. entries n = Some es \<and> c \<in> fst ` set es}"

definition isLeaf :: "(int \<Rightarrow> (int \<times> int) list option) \<Rightarrow> int \<Rightarrow> bool" where
  "isLeaf entries n \<longleftrightarrow> entries n = None \<or> entries n = Some []"

definition edgeWeight :: "(int \<Rightarrow> (int \<times> int) list option) \<Rightarrow> int \<Rightarrow> int \<Rightarrow> int" where
  "edgeWeight entries x y =
     (case entries x of None \<Rightarrow> 0 | Some es \<Rightarrow> (case map_of es y of None \<Rightarrow> 0 | Some w \<Rightarrow> w))"

fun pathWeight :: "(int \<Rightarrow> (int \<times> int) list option) \<Rightarrow> int list \<Rightarrow> int" where
  "pathWeight entries [] = 0"
| "pathWeight entries [x] = 0"
| "pathWeight entries (x # y # rest) = edgeWeight entries x y + pathWeight entries (y # rest)"

definition leafPath :: "(int \<Rightarrow> (int \<times> int) list option) \<Rightarrow> int \<Rightarrow> int list \<Rightarrow> bool" where
  "leafPath entries n q \<longleftrightarrow>
     q \<noteq> [] \<and> hd q = n \<and> successively (\<lambda>a b. (a, b) \<in> succRel entries) q \<and> isLeaf entries (last q)"

section \<open>Notions for the proofs\<close>

text \<open>
  The loop is stated over a task set \<open>V\<close>, the dependents \<open>nbrs\<close> it iterates over and
  the durations. \<open>lookup0\<close> reads a numeric map, \<open>preds\<close> are the prerequisites of a
  task, \<open>finish\<close> is start plus duration. \<open>kahn_inv\<close> relates the loop state to the set
  \<open>D\<close> of tasks already processed.
\<close>

definition lookup0 :: "(int \<times> int) list \<Rightarrow> int \<Rightarrow> int" where
  "lookup0 m k = (case map_of m k of None \<Rightarrow> 0 | Some v \<Rightarrow> v)"

definition lookupList :: "(int \<times> int list) list \<Rightarrow> int \<Rightarrow> int list" where
  "lookupList m k = (case map_of m k of None \<Rightarrow> [] | Some xs \<Rightarrow> xs)"

definition kedges :: "int set \<Rightarrow> (int \<Rightarrow> int list) \<Rightarrow> (int \<times> int) set" where
  "kedges V nbrs = {(p, n). p \<in> V \<and> n \<in> set (nbrs p)}"

definition preds :: "int set \<Rightarrow> (int \<Rightarrow> int list) \<Rightarrow> int \<Rightarrow> int set" where
  "preds V nbrs n = {p \<in> V. n \<in> set (nbrs p)}"

definition kahn_graph :: "int set \<Rightarrow> (int \<Rightarrow> int list) \<Rightarrow> (int \<times> int) list \<Rightarrow> bool" where
  "kahn_graph V nbrs dm \<longleftrightarrow>
     finite V \<and> (\<forall>c. distinct (nbrs c)) \<and> (\<forall>c. set (nbrs c) \<subseteq> V) \<and> V \<subseteq> fst ` set dm"

definition finish :: "(int \<times> int) list \<Rightarrow> (int \<times> int) list \<Rightarrow> int \<Rightarrow> int" where
  "finish es dm p = lookup0 es p + lookup0 dm p"

definition kahn_inv :: "int set \<Rightarrow> (int \<Rightarrow> int list) \<Rightarrow> (int \<times> int) list \<Rightarrow> int set
    \<Rightarrow> kahn_state \<Rightarrow> bool" where
  "kahn_inv V nbrs dm D st = (case st of (q, es, ind) \<Rightarrow>
     D \<subseteq> V \<and> set q \<subseteq> V \<and> distinct q \<and> set q \<inter> D = {} \<and>
     fst ` set es = V \<and> fst ` set ind = V \<and>
     (\<forall>n\<in>V. lookup0 ind n = int (card (preds V nbrs n - D))) \<and>
     (\<forall>n\<in>V. (n \<in> set q \<union> D) = (preds V nbrs n \<subseteq> D)) \<and>
     (\<forall>n\<in>V. lookup0 es n = Max (insert 0 (finish es dm ` (preds V nbrs n \<inter> D)))) \<and>
     (\<forall>n\<in>set q \<union> D. \<forall>c. (c, n) \<in> (kedges V nbrs)\<^sup>* \<longrightarrow> (c, c) \<notin> (kedges V nbrs)\<^sup>+))"

text \<open>The steps of the two searches for safe targets.\<close>

definition parentRel :: "'e dag \<Rightarrow> (int \<times> int) set" where
  "parentRel s = {(n, p). p \<in> set (getParentIds s n)}"

definition childRel :: "(int \<times> int) dag \<Rightarrow> (int \<times> int) set" where
  "childRel s = {(n, c). c \<in> set (getChildrenOf_w s n)}"

text \<open>
  A result \<open>good\<close> for a task is a heaviest path from it to a task without dependents,
  with its weight. \<open>memo_ok\<close> and \<open>acc_ok\<close> are the invariants of the memo map and of the
  loop over the dependents; a task is \<open>solvable\<close> when the search from it returns a good
  result on every call stack that is deep enough.
\<close>

definition good :: "(int \<Rightarrow> (int \<times> int) list option) \<Rightarrow> int \<Rightarrow> int \<times> int list \<Rightarrow> bool" where
  "good entries n r \<longleftrightarrow>
     leafPath entries n (snd r) \<and> fst r = pathWeight entries (snd r) \<and>
     (\<forall>q. leafPath entries n q \<longrightarrow> pathWeight entries q \<le> fst r)"

definition memo_ok :: "(int \<Rightarrow> (int \<times> int) list option) \<Rightarrow> memo \<Rightarrow> bool" where
  "memo_ok entries memo \<longleftrightarrow> (\<forall>n r. map_of memo n = Some r \<longrightarrow> good entries n r)"

definition acc_ok :: "(int \<Rightarrow> (int \<times> int) list option) \<Rightarrow> (int \<times> int) set \<Rightarrow> int option \<times> int list \<Rightarrow> bool" where
  "acc_ok entries B acc \<longleftrightarrow>
     (case fst acc of
        None \<Rightarrow> B = {}
      | Some m \<Rightarrow>
          (\<exists>(c, ew)\<in>B. leafPath entries c (snd acc) \<and> m = ew + pathWeight entries (snd acc)) \<and>
          (\<forall>(c, ew)\<in>B. \<forall>q. leafPath entries c q \<longrightarrow> ew + pathWeight entries q \<le> m))"

definition solvable :: "(int \<Rightarrow> (int \<times> int) list option) \<Rightarrow> int \<Rightarrow> bool" where
  "solvable entries node \<longleftrightarrow>
     (\<exists>N. \<forall>depth\<ge>N. \<forall>memo. memo_ok entries memo \<longrightarrow>
        (\<exists>r memo'. findMaxPath depth entries memo node = Some (r, memo') \<and>
           good entries node r \<and> memo_ok entries memo'))"

section \<open>Scenarios\<close>

definition task :: "int \<Rightarrow> int \<Rightarrow> todo" where
  "task i d = \<lparr>todo_id = i, title = [], dueDate = [], imageUrl = [], duration = d, minimumHours = 0\<rparr>"

text \<open>Two tasks, 1 (3 hours) and 2 (5 hours), added to the empty graph.\<close>

definition twoTasks :: "int dag option" where
  "twoTasks = Option.bind (addTodo emptyDag (task 1 3)) (\<lambda>s. addTodo s (task 2 5))"

definition twoTasks_w :: "(int \<times> int) dag option" where
  "twoTasks_w = Option.bind (addTodo_w emptyDag (task 1 3)) (\<lambda>s. addTodo_w s (task 2 5))"

definition twoTasksState :: "int dag" where
  "twoTasksState = \<lparr>adj = [(1, []), (2, [])], rev_adj = [(1, []), (2, [])], safeTargetsCache = [],
      idToTodo = [(1, task 1 3), (2, task 2 5)]\<rparr>"

text \<open>On the two tasks, the edge 1 \<rightarrow> 2 is added and then the edge 2 \<rightarrow> 1.\<close>

definition cycleScenario :: "(bool \<times> bool \<times> int dag) option" where
  "cycleScenario =
     Option.bind twoTasks (\<lambda>s.
     Option.bind (addDependency s 1 2) (\<lambda>(ok1, s1).
     Option.bind (addDependency s1 2 1) (\<lambda>(ok2, s2). Some (ok1, ok2, s2))))"

definition cycleScenario_w :: "(bool \<times> bool \<times> (int \<times> int) dag) option" where
  "cycleScenario_w =
     Option.bind twoTasks_w (\<lambda>s.
     Option.bind (addDependency_w s 1 2) (\<lambda>(ok1, s1).
     Option.bind (addDependency_w s1 2 1) (\<lambda>(ok2, s2). Some (ok1, ok2, s2))))"

definition cycleState :: "int dag" where
  "cycleState = \<lparr>adj = [(1, [2]), (2, [1])], rev_adj = [(1, [2]), (2, [1])], safeTargetsCache = [],
      idToTodo = [(1, task 1 3), (2, task 2 5)]\<rparr>"

definition cycleState_w :: "(int \<times> int) dag" where
  "cycleState_w = \<lparr>adj = [(1, [(2, 3)]), (2, [(1, 5)])], rev_adj = [(1, [2]), (2, [1])],
      safeTargetsCache = [], idToTodo = [(1, task 1 3), (2, task 2 5)]\<rparr>"

text \<open>Spec scenario 1: task 1 (3 hours) before task 2 (5 hours), before and after a recompute.\<close>

definition chainState :: "int dag" where
  "chainState = \<lparr>adj = [(1, [2]), (2, [])], rev_adj = [(1, []), (2, [1])], safeTargetsCache = [],
      idToTodo = [(1, task 1 3), (2, task 2 5)]\<rparr>"

definition chainScheduled :: "int dag" where
  "chainScheduled = chainState\<lparr>idToTodo := [(1, task 1 3), (2, (task 2 5)\<lparr>minimumHours := 3\<rparr>)]\<rparr>"

text \<open>The state after \<^verbatim>\<open>addTodo\<close> of a task with id 1 and duration 7 on \<open>chainScheduled\<close>.\<close>

definition overwrittenState :: "int dag" where
  "overwrittenState = chainState\<lparr>idToTodo := [(1, task 1 7), (2, (task 2 5)\<lparr>minimumHours := 7\<rparr>)]\<rparr>"

text \<open>Spec scenario 2: tasks 1 (2 hours), 2 (3 hours), 3 (4 hours); edges 1 \<rightarrow> 3 and 2 \<rightarrow> 3.\<close>

definition joinState :: "int dag" where
  "joinState = \<lparr>adj = [(1, [3]), (2, [3]), (3, [])], rev_adj = [(1, []), (2, []), (3, [1, 2])],
      safeTargetsCache = [], idToTodo = [(1, task 1 2), (2, task 2 3), (3, task 3 4)]\<rparr>"

definition joinState_w :: "(int \<times> int) dag" where
  "joinState_w = \<lparr>adj = [(1, [(3, 2)]), (2, [(3, 3)]), (3, [])],
      rev_adj = [(1, []), (2, []), (3, [1, 2])],
      safeTargetsCache = [], idToTodo = [(1, task 1 2), (2, task 2 3), (3, task 3 4)]\<rparr>"

text \<open>A state with a cycle: 1 \<rightarrow> 2, 2 \<rightarrow> 3, 3 \<rightarrow> 2, durations 3, 5 and 1.\<close>

definition loopState :: "int dag" where
  "loopState = \<lparr>adj = [(1, [2]), (2, [3]), (3, [2])], rev_adj = [(1, []), (2, [1, 3]), (3, [2])],
      safeTargetsCache = [], idToTodo = [(1, task 1 3), (2, task 2 5), (3, task 3 1)]\<rparr>"

definition loopState_w :: "(int \<times> int) dag" where
  "loopState_w = \<lparr>adj = [(1, [(2, 3)]), (2, [(3, 5)]), (3, [(2, 1)])],
      rev_adj = [(1, []), (2, [1, 3]), (3, [2])],
      safeTargetsCache = [], idToTodo = [(1, task 1 3), (2, task 2 5), (3, task 3 1)]\<rparr>"

text \<open>
  A task is added, its safe targets are asked for, a second task is added, and the safe
  targets of the first are asked for again.
\<close>

definition staleScenario :: "(int list \<times> int dag) option" where
  "staleScenario =
     Option.bind (addTodo emptyDag (task 1 3)) (\<lambda>s1.
     case getSafeTargets s1 1 of (targets1, s2) \<Rightarrow>
     Option.bind (addTodo s2 (task 2 5)) (\<lambda>s3.
     case getSafeTargets s3 1 of (targets2, s4) \<Rightarrow> Some (targets2, s3)))"

definition staleScenario_w :: "(int list \<times> (int \<times> int) dag) option" where
  "staleScenario_w =
     Option.bind (addTodo_w emptyDag (task 1 3)) (\<lambda>s1.
     case getSafeTargets_w s1 1 of (targets1, s2) \<Rightarrow>
     Option.bind (addTodo_w s2 (task 2 5)) (\<lambda>s3.
     case getSafeTargets_w s3 1 of (targets2, s4) \<Rightarrow> Some (targets2, s3)))"

definition staleState :: "int dag" where
  "staleState = \<lparr>adj = [(1, []), (2, [])], rev_adj = [(1, []), (2, [])],
     safeTargetsCache = [(1, [])], idToTodo = [(1, task 1 3), (2, task 2 5)]\<rparr>"

definition staleState_w :: "(int \<times> int) dag" where
  "staleState_w = \<lparr>adj = [(1, []), (2, [])], rev_adj = [(1, []), (2, [])],
     safeTargetsCache = [(1, [])], idToTodo = [(1, task 1 3), (2, task 2 5)]\<rparr>"

text \<open>
  Spec scenario 5, the diamond A \<rightarrow> B, A \<rightarrow> C, B \<rightarrow> D, C \<rightarrow> D with durations 1, 2, 5, 1.
  The tasks have the ids A = 1, B = 3, C = 2, D = 4 and are added in the order A, B, C, D;
  then the edges are added in the order given and the earliest starts are recomputed.
\<close>

definition diamondScenario :: "int dag option" where
  "diamondScenario =
     Option.bind (addTodo emptyDag (task 1 1)) (\<lambda>s.
     Option.bind (addTodo s (task 3 2)) (\<lambda>s.
     Option.bind (addTodo s (task 2 5)) (\<lambda>s.
     Option.bind (addTodo s (task 4 1)) (\<lambda>s.
     Option.bind (addDependency s 1 3) (\<lambda>(ok, s).
     Option.bind (addDependency s 1 2) (\<lambda>(ok, s).
     Option.bind (addDependency s 3 4) (\<lambda>(ok, s).
     Option.bind (addDependency s 2 4) (\<lambda>(ok, s).
     calculateEarliestStartTimes s))))))))"

definition diamondScenario_w :: "(int \<times> int) dag option" where
  "diamondScenario_w =
     Option.bind (addTodo_w emptyDag (task 1 1)) (\<lambda>s.
     Option.bind (addTodo_w s (task 3 2)) (\<lambda>s.
     Option.bind (addTodo_w s (task 2 5)) (\<lambda>s.
     Option.bind (addTodo_w s (task 4 1)) (\<lambda>s.
     Option.bind (addDependency_w s 1 3) (\<lambda>(ok, s).
     Option.bind (addDependency_w s 1 2) (\<lambda>(ok, s).
     Option.bind (addDependency_w s 3 4) (\<lambda>(ok, s).
     Option.bind (addDependency_w s 2 4) (\<lambda>(ok, s).
     calculateEarliestStartTimes_w s))))))))"

definition diamondState :: "int dag" where
  "diamondState = \<lparr>adj = [(1, [3, 2]), (3, [4]), (2, [4]), (4, [])],
      rev_adj = [(1, []), (3, [1]), (2, [1]), (4, [3, 2])], safeTargetsCache = [],
      idToTodo = [(1, task 1 1), (3, (task 3 2)\<lparr>minimumHours := 1\<rparr>),
                  (2, (task 2 5)\<lparr>minimumHours := 1\<rparr>), (4, (task 4 1)\<lparr>minimumHours := 6\<rparr>)]\<rparr>"

definition diamondState_w :: "(int \<times> int) dag" where
  "diamondState_w = \<lparr>adj = [(1, [(3, 1), (2, 1)]), (3, [(4, 2)]), (2, [(4, 5)]), (4, [])],
      rev_adj = [(1, []), (3, [1]), (2, [1]), (4, [3, 2])], safeTargetsCache = [],
      idToTodo = [(1, task 1 1), (3, (task 3 2)\<lparr>minimumHours := 1\<rparr>),
                  (2, (task 2 5)\<lparr>minimumHours := 1\<rparr>), (4, (task 4 1)\<lparr>minimumHours := 6\<rparr>)]\<rparr>"

lemmas eval_defs = addTodo_def addNode_def has_def hasTodo_def emptyDag_def task_def
  calculateEarliestStartTimes_def rootNodes_def storeMinimumHours_def addDependency_def
  setAdd_def hasDependency_def deleteDependency_def deleteNode_def

lemmas eval_defs_w = addTodo_w_def addNode_def has_def hasTodo_def emptyDag_def task_def
  calculateEarliestStartTimes_w_def allTodoIds_def addDependency_w_def getTodoWithId_def
  setAdd_def hasDependency_w_def deleteDependency_w_def deleteNode_w_def

lemmas wf_eval = wf_dag_def wf_dag_w_def forgetWeights_def task_def getParentIds_def getChildrenOf_def

section \<open>Evaluation of the scenarios\<close>

lemma twoTasks_eval:
  "twoTasks = Some \<lparr>adj = [(1, []), (2, [])], rev_adj = [(1, []), (2, [])], safeTargetsCache = [],
      idToTodo = [(1, task 1 3), (2, task 2 5)]\<rparr>"
  by (simp add: twoTasks_def addTodo_def addNode_def has_def emptyDag_def task_def
      calculateEarliestStartTimes_def rootNodes_def storeMinimumHours_def)

lemma twoTasks_w_eval:
  "twoTasks_w = Some \<lparr>adj = [(1, []), (2, [])], rev_adj = [(1, []), (2, [])], safeTargetsCache = [],
      idToTodo = [(1, task 1 3), (2, task 2 5)]\<rparr>"
  by (simp add: twoTasks_w_def addTodo_w_def addNode_def has_def emptyDag_def task_def
      calculateEarliestStartTimes_w_def allTodoIds_def)

lemma cycleScenario_eval: "cycleScenario = Some (True, True, cycleState)"
  by (simp add: cycleScenario_def twoTasks_eval addDependency_def hasTodo_def has_def setAdd_def
      cycleState_def)

lemma cycleScenario_w_eval: "cycleScenario_w = Some (True, True, cycleState_w)"
  by (simp add: cycleScenario_w_def twoTasks_w_eval addDependency_w_def hasTodo_def has_def
      setAdd_def getTodoWithId_def cycleState_w_def task_def)

section \<open>The scheduler loop\<close>

lemma visitNeighbors_result:
  "distinct ns \<Longrightarrow> set ns \<subseteq> fst ` set es \<Longrightarrow> set ns \<subseteq> fst ` set ind \<Longrightarrow>
   \<exists>es' ind'. visitNeighbors f ns (q, es, ind) =
       Some (q @ filter (\<lambda>n. lookup0 ind n = 1) ns, es', ind') \<and>
     fst ` set es' = fst ` set es \<and> fst ` set ind' = fst ` set ind \<and>
     (\<forall>n. lookup0 es' n = (if n \<in> set ns then max (lookup0 es n) f else lookup0 es n)) \<and>
     (\<forall>n. lookup0 ind' n = (if n \<in> set ns then lookup0 ind n - 1 else lookup0 ind n))"
proof (induction ns arbitrary: q es ind)
  case Nil
  then show ?case by simp
next
  case (Cons a ns)
  from Cons.prems obtain e d where e: "map_of es a = Some e" and d: "map_of ind a = Some d"
    using map_of_eq_None_iff[of es a] map_of_eq_None_iff[of ind a] by auto
  define q1 where "q1 = (if d - 1 = 0 then q @ [a] else q)"
  define es1 where "es1 = AList.update a (max e f) es"
  define ind1 where "ind1 = AList.update a (d - 1) ind"
  have step: "visitNeighbors f (a # ns) (q, es, ind) = visitNeighbors f ns (q1, es1, ind1)"
    using e d by (simp add: Let_def q1_def es1_def ind1_def)
  have an: "a \<notin> set ns" using Cons.prems by simp
  have p: "distinct ns" "set ns \<subseteq> fst ` set es1" "set ns \<subseteq> fst ` set ind1"
    using Cons.prems by (auto simp: dom_update es1_def ind1_def)
  from Cons.IH[OF p, of q1] obtain es' ind' where
    r: "visitNeighbors f ns (q1, es1, ind1) = Some (q1 @ filter (\<lambda>n. lookup0 ind1 n = 1) ns, es', ind')"
    and k1: "fst ` set es' = fst ` set es1" and k2: "fst ` set ind' = fst ` set ind1"
    and v1: "\<forall>n. lookup0 es' n = (if n \<in> set ns then max (lookup0 es1 n) f else lookup0 es1 n)"
    and v2: "\<forall>n. lookup0 ind' n = (if n \<in> set ns then lookup0 ind1 n - 1 else lookup0 ind1 n)"
    by (elim exE conjE) (rule that; assumption)
  have l1: "\<And>n. lookup0 es1 n = (if n = a then max e f else lookup0 es n)"
    by (simp add: lookup0_def es1_def update_conv')
  have l2: "\<And>n. lookup0 ind1 n = (if n = a then d - 1 else lookup0 ind n)"
    by (simp add: lookup0_def ind1_def update_conv')
  have le: "lookup0 es a = e" "lookup0 ind a = d" using e d by (simp_all add: lookup0_def)
  have f1: "filter (\<lambda>n. lookup0 ind1 n = 1) ns = filter (\<lambda>n. lookup0 ind n = 1) ns"
    using an by (intro filter_cong) (auto simp: l2)
  have q: "q1 @ filter (\<lambda>n. lookup0 ind n = 1) ns = q @ filter (\<lambda>n. lookup0 ind n = 1) (a # ns)"
    using le by (simp add: q1_def)
  have a1: "fst ` set es' = fst ` set es" using k1 e map_of_eq_None_iff[of es a]
    by (auto simp: dom_update es1_def)
  have a2: "fst ` set ind' = fst ` set ind" using k2 d map_of_eq_None_iff[of ind a]
    by (auto simp: dom_update ind1_def)
  have a3: "\<forall>n. lookup0 es' n = (if n \<in> set (a # ns) then max (lookup0 es n) f else lookup0 es n)"
    using an le by (simp add: v1 l1)
  have a4: "\<forall>n. lookup0 ind' n = (if n \<in> set (a # ns) then lookup0 ind n - 1 else lookup0 ind n)"
    using an le by (simp add: v2 l2)
  show ?case unfolding step r f1 q using a1 a2 a3 a4 by blast
qed

lemma kahn_step:
  assumes G: "kahn_graph V nbrs dm" and I: "kahn_inv V nbrs dm D (c # q, es, ind)"
  shows "\<exists>st'. visitNeighbors (finish es dm c) (nbrs c) (q, es, ind) = Some st' \<and>
           kahn_inv V nbrs dm (insert c D) st'"
proof -
  let ?P = "preds V nbrs"
  let ?E = "kedges V nbrs"
  let ?f = "finish es dm c"
  from G have finV: "finite V" and dn: "\<And>c. distinct (nbrs c)" and nV: "\<And>c. set (nbrs c) \<subseteq> V"
    by (auto simp: kahn_graph_def)
  from I have DV: "D \<subseteq> V" and qV: "set q \<subseteq> V" and cV: "c \<in> V" and dq: "distinct q"
    and cq: "c \<notin> set q" and cD: "c \<notin> D" and qD: "set q \<inter> D = {}"
    and kes: "fst ` set es = V" and kind: "fst ` set ind = V"
    and ic: "\<And>n. n \<in> V \<Longrightarrow> lookup0 ind n = int (card (?P n - D))"
    and id: "\<And>n. n \<in> V \<Longrightarrow> (n = c \<or> n \<in> set q \<or> n \<in> D) = (?P n \<subseteq> D)"
    and ie: "\<And>n. n \<in> V \<Longrightarrow> lookup0 es n = Max (insert 0 (finish es dm ` (?P n \<inter> D)))"
    and icy: "\<And>n a. n = c \<or> n \<in> set q \<or> n \<in> D \<Longrightarrow> (a, n) \<in> ?E\<^sup>* \<Longrightarrow> (a, a) \<notin> ?E\<^sup>+"
    by (auto simp: kahn_inv_def)
  have finP: "\<And>n. finite (?P n)" using finV by (simp add: preds_def)
  have pc: "?P c \<subseteq> D" using id[OF cV] by simp
  have c_ns: "c \<notin> set (nbrs c)" using pc cV cD by (auto simp: preds_def)
  have D_ns: "\<And>p. p \<in> D \<Longrightarrow> p \<notin> set (nbrs c)"
  proof
    fix p assume p: "p \<in> D" "p \<in> set (nbrs c)"
    then have "c \<in> ?P p" using cV by (simp add: preds_def)
    moreover have "?P p \<subseteq> D" using id[of p] p DV by auto
    ultimately show False using cD by auto
  qed
  have mem: "\<And>n. n \<in> set (nbrs c) \<longleftrightarrow> c \<in> ?P n" using cV by (simp add: preds_def)
  have sub: "set (nbrs c) \<subseteq> fst ` set es" "set (nbrs c) \<subseteq> fst ` set ind"
    using nV[of c] kes kind by simp_all
  from visitNeighbors_result[OF dn[of c] sub, of ?f q]
  obtain es' ind' where
    r: "visitNeighbors ?f (nbrs c) (q, es, ind) =
          Some (q @ filter (\<lambda>n. lookup0 ind n = 1) (nbrs c), es', ind')"
    and k1: "fst ` set es' = fst ` set es" and k2: "fst ` set ind' = fst ` set ind"
    and v1: "\<forall>n. lookup0 es' n = (if n \<in> set (nbrs c) then max (lookup0 es n) ?f else lookup0 es n)"
    and v2: "\<forall>n. lookup0 ind' n = (if n \<in> set (nbrs c) then lookup0 ind n - 1 else lookup0 ind n)"
    by (elim exE conjE) (rule that; assumption)
  let ?new = "filter (\<lambda>n. lookup0 ind n = 1) (nbrs c)"
  have new_iff: "\<And>n. n \<in> set ?new \<longleftrightarrow> n \<in> V \<and> ?P n - D = {c}"
  proof
    fix n assume "n \<in> set ?new"
    then have n: "n \<in> set (nbrs c)" "lookup0 ind n = 1" by auto
    then have nV': "n \<in> V" using nV by auto
    have "card (?P n - D) = 1" using ic[OF nV'] n by simp
    moreover have "c \<in> ?P n - D" using n mem cD by simp
    ultimately have "?P n - D = {c}" by (metis card_1_singletonE singletonD)
    then show "n \<in> V \<and> ?P n - D = {c}" using nV' by simp
  next
    fix n assume a: "n \<in> V \<and> ?P n - D = {c}"
    then have "c \<in> ?P n" by auto
    then have "n \<in> set (nbrs c)" using mem by simp
    moreover have "lookup0 ind n = 1" using ic[of n] a by simp
    ultimately show "n \<in> set ?new" by simp
  qed
  have new_fresh: "\<And>n. n \<in> set ?new \<Longrightarrow> n \<noteq> c \<and> n \<notin> set q \<and> n \<notin> D"
  proof -
    fix n assume "n \<in> set ?new"
    then have n: "n \<in> V" "?P n - D = {c}" using new_iff by auto
    then have "\<not> ?P n \<subseteq> D" by auto
    then show "n \<noteq> c \<and> n \<notin> set q \<and> n \<notin> D" using id[OF n(1)] by auto
  qed
  have a1: "insert c D \<subseteq> V" using DV cV by simp
  have a2: "set (q @ ?new) \<subseteq> V" using qV nV[of c] by auto
  have a3: "distinct (q @ ?new)" using dq dn[of c] new_fresh by auto
  have a4: "set (q @ ?new) \<inter> insert c D = {}" using qD cq new_fresh by auto
  have a5: "\<forall>n\<in>V. lookup0 ind' n = int (card (?P n - insert c D))"
  proof
    fix n assume n: "n \<in> V"
    show "lookup0 ind' n = int (card (?P n - insert c D))"
    proof (cases "n \<in> set (nbrs c)")
      case True
      then have cm: "c \<in> ?P n - D" using mem cD by simp
      have "?P n - insert c D = (?P n - D) - {c}" by auto
      then have "card (?P n - insert c D) = card (?P n - D) - 1"
        using cm finP[of n] by simp
      moreover have "card (?P n - D) \<ge> 1" using cm finP[of n]
        by (metis Suc_leI card_gt_0_iff empty_iff finite_Diff One_nat_def)
      ultimately show ?thesis using v2 True ic[OF n] by simp
    next
      case False
      then have "?P n - insert c D = ?P n - D" using mem by auto
      then show ?thesis using v2 False ic[OF n] by simp
    qed
  qed
  have a6: "\<forall>n\<in>V. (n \<in> set (q @ ?new) \<union> insert c D) = (?P n \<subseteq> insert c D)"
  proof
    fix n assume n: "n \<in> V"
    show "(n \<in> set (q @ ?new) \<union> insert c D) = (?P n \<subseteq> insert c D)"
    proof
      assume "n \<in> set (q @ ?new) \<union> insert c D"
      then consider "n = c \<or> n \<in> set q \<or> n \<in> D" | "n \<in> set ?new" by auto
      then show "?P n \<subseteq> insert c D"
      proof cases
        case 1 then show ?thesis using id[OF n] by auto
      next
        case 2 then show ?thesis using new_iff[of n] by auto
      qed
    next
      assume s: "?P n \<subseteq> insert c D"
      show "n \<in> set (q @ ?new) \<union> insert c D"
      proof (cases "?P n \<subseteq> D")
        case True then show ?thesis using id[OF n] by auto
      next
        case False
        then have "?P n - D = {c}" using s by auto
        then show ?thesis using new_iff[of n] n by auto
      qed
    qed
  qed
  have stable: "\<And>p. p \<in> insert c D \<Longrightarrow> lookup0 es' p = lookup0 es p"
    using v1 c_ns D_ns by auto
  have fin_stable: "\<And>p. p \<in> insert c D \<Longrightarrow> finish es' dm p = finish es dm p"
    using stable by (simp add: finish_def)
  have a7: "\<forall>n\<in>V. lookup0 es' n = Max (insert 0 (finish es' dm ` (?P n \<inter> insert c D)))"
  proof
    fix n assume n: "n \<in> V"
    have img: "finish es' dm ` (?P n \<inter> insert c D) = finish es dm ` (?P n \<inter> insert c D)"
      using fin_stable by (intro image_cong) auto
    show "lookup0 es' n = Max (insert 0 (finish es' dm ` (?P n \<inter> insert c D)))"
    proof (cases "n \<in> set (nbrs c)")
      case True
      then have "?P n \<inter> insert c D = insert c (?P n \<inter> D)" using mem by auto
      then have "insert 0 (finish es dm ` (?P n \<inter> insert c D))
          = insert ?f (insert 0 (finish es dm ` (?P n \<inter> D)))" by auto
      moreover have "finite (insert 0 (finish es dm ` (?P n \<inter> D)))" using finP[of n] by simp
      ultimately have "Max (insert 0 (finish es dm ` (?P n \<inter> insert c D)))
          = max ?f (Max (insert 0 (finish es dm ` (?P n \<inter> D))))"
        by (simp del: Max_insert add: Max_insert[of "insert 0 _"])
      then show ?thesis using v1 True ie[OF n] img by (simp add: max.commute)
    next
      case False
      then have "?P n \<inter> insert c D = ?P n \<inter> D" using mem by auto
      then show ?thesis using v1 False ie[OF n] img by simp
    qed
  qed
  have a8: "\<forall>n\<in>set (q @ ?new) \<union> insert c D. \<forall>a. (a, n) \<in> ?E\<^sup>* \<longrightarrow> (a, a) \<notin> ?E\<^sup>+"
  proof (intro ballI allI impI)
    fix n a assume n: "n \<in> set (q @ ?new) \<union> insert c D" and an: "(a, n) \<in> ?E\<^sup>*"
    then consider "n = c \<or> n \<in> set q \<or> n \<in> D" | "n \<in> set ?new" by auto
    then show "(a, a) \<notin> ?E\<^sup>+"
    proof cases
      case 1 then show ?thesis using icy an by blast
    next
      case 2
      then have nV': "n \<in> V" and pn: "?P n \<subseteq> insert c D" using new_iff[of n] by auto
      have predok: "\<And>p b. (p, n) \<in> ?E \<Longrightarrow> (b, p) \<in> ?E\<^sup>* \<Longrightarrow> (b, b) \<notin> ?E\<^sup>+"
      proof -
        fix p b assume "(p, n) \<in> ?E" and bp: "(b, p) \<in> ?E\<^sup>*"
        then have "p \<in> ?P n" by (simp add: kedges_def preds_def)
        then have "p = c \<or> p \<in> D" using pn by auto
        then show "(b, b) \<notin> ?E\<^sup>+" using icy[of p b] bp by blast
      qed
      show ?thesis
      proof (cases "a = n")
        case True
        show ?thesis
        proof
          assume "(a, a) \<in> ?E\<^sup>+"
          then obtain p where "(a, p) \<in> ?E\<^sup>*" "(p, a) \<in> ?E" by (meson tranclD2)
          then show False using predok[of p a] True \<open>(a, a) \<in> ?E\<^sup>+\<close> by blast
        qed
      next
        case False
        then have "(a, n) \<in> ?E\<^sup>+" using an by (meson rtranclD)
        then obtain p where "(a, p) \<in> ?E\<^sup>*" "(p, n) \<in> ?E" by (meson tranclD2)
        then show ?thesis using predok by blast
      qed
    qed
  qed
  have "kahn_inv V nbrs dm (insert c D) (q @ ?new, es', ind')"
    unfolding kahn_inv_def using a1 a2 a3 a4 a5 a6 a7 a8 k1 k2 kes kind by simp
  then show ?thesis using r by blast
qed

lemma lookup0_Some: "k \<in> fst ` set m \<Longrightarrow> map_of m k = Some (lookup0 m k)"
  using map_of_eq_None_iff[of m k] by (auto simp: lookup0_def)

lemma kahn_run:
  assumes G: "kahn_graph V nbrs dm"
  shows "kahn_inv V nbrs dm D st \<Longrightarrow>
    \<exists>es' ind'. kahnLoop nbrs dm st = Some ([], es', ind') \<and>
      kahn_inv V nbrs dm (D \<union> set (kahnOrder nbrs dm st)) ([], es', ind') \<and>
      distinct (kahnOrder nbrs dm st) \<and> set (kahnOrder nbrs dm st) \<inter> D = {}"
proof (induction "card (V - D)" arbitrary: D st rule: less_induct)
  case less
  obtain q es ind where st: "st = (q, es, ind)" by (cases st)
  show ?case
  proof (cases q)
    case Nil
    then show ?thesis using less.prems st by simp
  next
    case (Cons c q')
    from G have finV: "finite V" and dmV: "V \<subseteq> fst ` set dm" by (auto simp: kahn_graph_def)
    from less.prems st Cons have I: "kahn_inv V nbrs dm D (c # q', es, ind)" by simp
    then have cV: "c \<in> V" and cD: "c \<notin> D" and kes: "fst ` set es = V"
      by (auto simp: kahn_inv_def)
    from kahn_step[OF G I] obtain st' where
      v: "visitNeighbors (finish es dm c) (nbrs c) (q', es, ind) = Some st'"
      and I': "kahn_inv V nbrs dm (insert c D) st'" by blast
    have e: "map_of es c = Some (lookup0 es c)" using lookup0_Some cV kes by simp
    have d: "map_of dm c = Some (lookup0 dm c)" using lookup0_Some cV dmV by blast
    have loop: "kahnLoop nbrs dm st = kahnLoop nbrs dm st'"
      using st Cons e d v by (simp add: finish_def)
    have order: "kahnOrder nbrs dm st = c # kahnOrder nbrs dm st'"
      using st Cons e d v by (simp add: finish_def)
    have "V - insert c D \<subset> V - D" using cV cD by auto
    then have "card (V - insert c D) < card (V - D)" using finV by (simp add: psubset_card_mono)
    from less.hyps[OF this I'] obtain es' ind' where
      r: "kahnLoop nbrs dm st' = Some ([], es', ind')"
      and J: "kahn_inv V nbrs dm (insert c D \<union> set (kahnOrder nbrs dm st')) ([], es', ind')"
      and dd: "distinct (kahnOrder nbrs dm st')"
      and di: "set (kahnOrder nbrs dm st') \<inter> insert c D = {}"
      by (elim exE conjE) (rule that; assumption)
    have "insert c D \<union> set (kahnOrder nbrs dm st') = D \<union> set (kahnOrder nbrs dm st)"
      using order by simp
    then show ?thesis using r J dd di loop order cD by auto
  qed
qed

section \<open>The scheduler on well-formed states\<close>

lemma initMaps_result:
  "distinct (map todo_id ts) \<Longrightarrow> todo_id ` set ts \<subseteq> fst ` set r \<Longrightarrow>
   \<exists>dm es ind. initMaps r ts (dm0, es0, ind0) = Some (dm, es, ind) \<and>
     fst ` set dm = fst ` set dm0 \<union> todo_id ` set ts \<and>
     fst ` set es = fst ` set es0 \<union> todo_id ` set ts \<and>
     fst ` set ind = fst ` set ind0 \<union> todo_id ` set ts \<and>
     (\<forall>t\<in>set ts. lookup0 dm (todo_id t) = duration t \<and> lookup0 es (todo_id t) = 0 \<and>
        lookup0 ind (todo_id t) = int (length (case map_of r (todo_id t) of None \<Rightarrow> [] | Some ps \<Rightarrow> ps))) \<and>
     (\<forall>k. k \<notin> todo_id ` set ts \<longrightarrow> lookup0 dm k = lookup0 dm0 k \<and> lookup0 es k = lookup0 es0 k \<and>
        lookup0 ind k = lookup0 ind0 k)"
proof (induction ts arbitrary: dm0 es0 ind0)
  case Nil
  then show ?case by simp
next
  case (Cons t ts)
  from Cons.prems obtain incoming where inc: "map_of r (todo_id t) = Some incoming"
    using map_of_eq_None_iff[of r "todo_id t"] by auto
  define dm1 where "dm1 = AList.update (todo_id t) (duration t) dm0"
  define es1 where "es1 = AList.update (todo_id t) 0 es0"
  define ind1 where "ind1 = AList.update (todo_id t) (int (length incoming)) ind0"
  have step: "initMaps r (t # ts) (dm0, es0, ind0) = initMaps r ts (dm1, es1, ind1)"
    using inc by (simp add: dm1_def es1_def ind1_def)
  have p: "distinct (map todo_id ts)" "todo_id ` set ts \<subseteq> fst ` set r" using Cons.prems by auto
  have tn: "todo_id t \<notin> todo_id ` set ts" using Cons.prems by auto
  from Cons.IH[OF p, of dm1 es1 ind1] obtain dm es ind where
    r: "initMaps r ts (dm1, es1, ind1) = Some (dm, es, ind)"
    and k1: "fst ` set dm = fst ` set dm1 \<union> todo_id ` set ts"
    and k2: "fst ` set es = fst ` set es1 \<union> todo_id ` set ts"
    and k3: "fst ` set ind = fst ` set ind1 \<union> todo_id ` set ts"
    and v: "\<forall>t\<in>set ts. lookup0 dm (todo_id t) = duration t \<and> lookup0 es (todo_id t) = 0 \<and>
        lookup0 ind (todo_id t) = int (length (case map_of r (todo_id t) of None \<Rightarrow> [] | Some ps \<Rightarrow> ps))"
    and u: "\<forall>k. k \<notin> todo_id ` set ts \<longrightarrow> lookup0 dm k = lookup0 dm1 k \<and> lookup0 es k = lookup0 es1 k \<and>
        lookup0 ind k = lookup0 ind1 k"
    by (elim exE conjE) (rule that; assumption)
  have l: "\<And>k. lookup0 dm1 k = (if k = todo_id t then duration t else lookup0 dm0 k)"
    "\<And>k. lookup0 es1 k = (if k = todo_id t then 0 else lookup0 es0 k)"
    "\<And>k. lookup0 ind1 k = (if k = todo_id t then int (length incoming) else lookup0 ind0 k)"
    by (simp_all add: lookup0_def dm1_def es1_def ind1_def update_conv')
  have a1: "fst ` set dm = fst ` set dm0 \<union> todo_id ` set (t # ts)"
    using k1 by (auto simp: dm1_def dom_update)
  have a2: "fst ` set es = fst ` set es0 \<union> todo_id ` set (t # ts)"
    using k2 by (auto simp: es1_def dom_update)
  have a3: "fst ` set ind = fst ` set ind0 \<union> todo_id ` set (t # ts)"
    using k3 by (auto simp: ind1_def dom_update)
  have a4: "\<forall>t\<in>set (t # ts). lookup0 dm (todo_id t) = duration t \<and> lookup0 es (todo_id t) = 0 \<and>
        lookup0 ind (todo_id t) = int (length (case map_of r (todo_id t) of None \<Rightarrow> [] | Some ps \<Rightarrow> ps))"
    using v u tn l inc by simp
  have a5: "\<forall>k. k \<notin> todo_id ` set (t # ts) \<longrightarrow> lookup0 dm k = lookup0 dm0 k \<and> lookup0 es k = lookup0 es0 k \<and>
        lookup0 ind k = lookup0 ind0 k"
    using u l by simp
  show ?case unfolding step r using a1 a2 a3 a4 a5 by blast
qed

lemma wf_children_distinct: "wf_dag s \<Longrightarrow> distinct (getChildrenOf s c)"
  by (auto simp: wf_dag_def getChildrenOf_def split: option.splits dest!: map_of_SomeD)

lemma wf_parents_distinct: "wf_dag s \<Longrightarrow> distinct (getParentIds s c)"
  by (auto simp: wf_dag_def getParentIds_def split: option.splits dest!: map_of_SomeD)

lemma children_iff:
  "d \<in> set (getChildrenOf s p) \<longleftrightarrow> (\<exists>ns. map_of (adj s) p = Some ns \<and> d \<in> set ns)"
  by (cases "map_of (adj s) p") (simp_all add: getChildrenOf_def)

lemma parents_iff:
  "p \<in> set (getParentIds s d) \<longleftrightarrow> (\<exists>ps. map_of (rev_adj s) d = Some ps \<and> p \<in> set ps)"
  by (cases "map_of (rev_adj s) d") (simp_all add: getParentIds_def)

lemma wf_mirror: "wf_dag s \<Longrightarrow> d \<in> set (getChildrenOf s p) \<longleftrightarrow> p \<in> set (getParentIds s d)"
proof
  assume w: "wf_dag s" and "d \<in> set (getChildrenOf s p)"
  then obtain ns where "map_of (adj s) p = Some ns" "d \<in> set ns"
    using children_iff by blast
  then have "(p, ns) \<in> set (adj s)" by (auto dest: map_of_SomeD)
  then show "p \<in> set (getParentIds s d)" using w \<open>d \<in> set ns\<close> by (auto simp: wf_dag_def)
next
  assume w: "wf_dag s" and "p \<in> set (getParentIds s d)"
  then obtain ps where "map_of (rev_adj s) d = Some ps" "p \<in> set ps"
    using parents_iff by blast
  then have "(d, ps) \<in> set (rev_adj s)" by (auto dest: map_of_SomeD)
  then show "d \<in> set (getChildrenOf s p)" using w \<open>p \<in> set ps\<close> by (auto simp: wf_dag_def)
qed

lemma children_key: "d \<in> set (getChildrenOf s p) \<Longrightarrow> p \<in> fst ` set (adj s)"
  using map_of_eq_None_iff[of "adj s" p] children_iff[of d s p] by auto

lemma parents_key: "p \<in> set (getParentIds s d) \<Longrightarrow> d \<in> fst ` set (rev_adj s)"
  using map_of_eq_None_iff[of "rev_adj s" d] parents_iff[of p s d] by auto

lemma wf_children_tasks: "wf_dag s \<Longrightarrow> set (getChildrenOf s c) \<subseteq> set (allTodoIds s)"
proof
  fix d assume w: "wf_dag s" and "d \<in> set (getChildrenOf s c)"
  then have "c \<in> set (getParentIds s d)" using wf_mirror by simp
  then have "d \<in> fst ` set (rev_adj s)" by (rule parents_key)
  then show "d \<in> set (allTodoIds s)" using w by (simp add: wf_dag_def allTodoIds_def)
qed

lemma wf_parents_tasks: "wf_dag s \<Longrightarrow> set (getParentIds s c) \<subseteq> set (allTodoIds s)"
proof
  fix p assume w: "wf_dag s" and "p \<in> set (getParentIds s c)"
  then have "c \<in> set (getChildrenOf s p)" using wf_mirror by simp
  then have "p \<in> fst ` set (adj s)" by (rule children_key)
  then show "p \<in> set (allTodoIds s)" using w by (simp add: wf_dag_def allTodoIds_def)
qed

lemma wf_preds: "wf_dag s \<Longrightarrow> preds (set (allTodoIds s)) (getChildrenOf s) n = set (getParentIds s n)"
  using wf_mirror[of s n] wf_parents_tasks[of s n] by (auto simp: preds_def)

lemma edges_children: "edges s = {(p, d). d \<in> set (getChildrenOf s p)}"
  by (auto simp: edges_def children_iff)

lemma wf_kedges: "wf_dag s \<Longrightarrow> kedges (set (allTodoIds s)) (getChildrenOf s) = edges s"
  using wf_mirror[of s] wf_parents_tasks[of s] by (auto simp: kedges_def edges_children)

lemma wf_rootNodes:
  assumes "wf_dag s"
  shows "distinct (rootNodes s)"
    and "set (rootNodes s) = {n \<in> set (allTodoIds s). set (getParentIds s n) = {}}"
proof -
  from assms have d: "distinct (map fst (rev_adj s))"
    and k: "set (map fst (rev_adj s)) = set (map fst (idToTodo s))" by (auto simp: wf_dag_def)
  show "distinct (rootNodes s)" unfolding rootNodes_def using d by (simp add: distinct_map_filter)
  show "set (rootNodes s) = {n \<in> set (allTodoIds s). set (getParentIds s n) = {}}"
  proof (intro set_eqI iffI)
    fix n assume "n \<in> set (rootNodes s)"
    then have "(n, []) \<in> set (rev_adj s)" by (auto simp: rootNodes_def)
    then have "map_of (rev_adj s) n = Some []" using d by simp
    moreover have "n \<in> set (allTodoIds s)" using \<open>(n, []) \<in> set (rev_adj s)\<close> k
      by (force simp: allTodoIds_def)
    ultimately show "n \<in> {n \<in> set (allTodoIds s). set (getParentIds s n) = {}}"
      by (simp add: getParentIds_def)
  next
    fix n assume "n \<in> {n \<in> set (allTodoIds s). set (getParentIds s n) = {}}"
    then have n: "n \<in> set (map fst (rev_adj s))" and e: "getParentIds s n = []"
      using k by (auto simp: allTodoIds_def)
    then obtain ps where "map_of (rev_adj s) n = Some ps"
      using map_of_eq_None_iff[of "rev_adj s" n] by auto
    then have "(n, []) \<in> set (rev_adj s)" using e by (auto simp: getParentIds_def dest: map_of_SomeD)
    then show "n \<in> set (rootNodes s)" by (force simp: rootNodes_def)
  qed
qed

lemma wf_todo_ids: "wf_dag s \<Longrightarrow> map todo_id (map snd (idToTodo s)) = map fst (idToTodo s)"
  by (auto simp: wf_dag_def)

lemma kahn_init:
  assumes fin: "finite V"
    and q: "distinct q" "set q = {n \<in> V. preds V nbrs n = {}}"
    and k: "fst ` set es = V" "fst ` set ind = V"
    and e: "\<forall>n\<in>V. lookup0 es n = 0"
    and i: "\<forall>n\<in>V. lookup0 ind n = int (card (preds V nbrs n))"
  shows "kahn_inv V nbrs dm {} (q, es, ind)"
proof -
  have finP: "\<And>n. finite (preds V nbrs n)" using fin by (simp add: preds_def)
  have root: "\<And>n a. n \<in> set q \<Longrightarrow> (a, n) \<in> (kedges V nbrs)\<^sup>* \<Longrightarrow> (a, a) \<notin> (kedges V nbrs)\<^sup>+"
  proof
    fix n a assume n: "n \<in> set q" and an: "(a, n) \<in> (kedges V nbrs)\<^sup>*" and aa: "(a, a) \<in> (kedges V nbrs)\<^sup>+"
    have nopred: "\<And>p. (p, n) \<notin> kedges V nbrs" using n q(2) by (auto simp: kedges_def preds_def)
    have "a = n" using an nopred by (meson rtranclE)
    then obtain p where "(p, n) \<in> kedges V nbrs" using aa by (meson tranclE)
    then show False using nopred by simp
  qed
  show ?thesis unfolding kahn_inv_def using q k e i root finP by (auto simp: card_eq_0_iff)
qed

lemma nbrs_eq: "(\<lambda>current. case map_of (adj s) current of None \<Rightarrow> [] | Some ns \<Rightarrow> ns) = getChildrenOf s"
  by (rule ext) (simp add: getChildrenOf_def)

lemma map_of_storeMinimumHours:
  "map_of (storeMinimumHours es todos) k =
     map_option (\<lambda>t. t\<lparr>minimumHours := lookup0 es (todo_id t)\<rparr>) (map_of todos k)"
  by (induction todos) (auto simp: storeMinimumHours_def lookup0_def)

lemma keys_storeMinimumHours: "map fst (storeMinimumHours es todos) = map fst todos"
  by (induction todos) (auto simp: storeMinimumHours_def)

lemma wf_todo_key: "wf_dag s \<Longrightarrow> map_of (idToTodo s) k = Some t \<Longrightarrow> todo_id t = k"
  by (auto simp: wf_dag_def dest!: map_of_SomeD)

lemma calc_run:
  assumes w: "wf_dag s"
  shows "\<exists>dm es ind es' ind'.
    initMaps (rev_adj s) (map snd (idToTodo s)) ([], [], []) = Some (dm, es, ind) \<and>
    kahnLoop (getChildrenOf s) dm (rootNodes s, es, ind) = Some ([], es', ind') \<and>
    (\<forall>n\<in>set (allTodoIds s). lookup0 dm n = durationOf s n) \<and>
    kahn_inv (set (allTodoIds s)) (getChildrenOf s) dm
       (set (kahnOrder (getChildrenOf s) dm (rootNodes s, es, ind))) ([], es', ind') \<and>
    distinct (kahnOrder (getChildrenOf s) dm (rootNodes s, es, ind))"
proof -
  let ?V = "set (allTodoIds s)"
  let ?ts = "map snd (idToTodo s)"
  have ids: "map todo_id ?ts = map fst (idToTodo s)" using w by (rule wf_todo_ids)
  have idset: "todo_id ` set ?ts = ?V"
    using arg_cong[OF ids, of set] by (simp add: allTodoIds_def image_image)
  have "distinct (map fst (idToTodo s))" using w by (simp add: wf_dag_def)
  then have d: "distinct (map todo_id ?ts)" unfolding ids .
  have sub: "todo_id ` set ?ts \<subseteq> fst ` set (rev_adj s)"
    using idset w by (simp add: wf_dag_def allTodoIds_def)
  have "\<exists>dm es ind. initMaps (rev_adj s) ?ts ([], [], []) = Some (dm, es, ind) \<and>
     fst ` set dm = ?V \<and> fst ` set es = ?V \<and> fst ` set ind = ?V \<and>
     (\<forall>t\<in>set ?ts. lookup0 dm (todo_id t) = duration t \<and> lookup0 es (todo_id t) = 0 \<and>
        lookup0 ind (todo_id t) = int (length (case map_of (rev_adj s) (todo_id t) of None \<Rightarrow> [] | Some ps \<Rightarrow> ps)))"
    using initMaps_result[OF d sub, of "[]" "[]" "[]"] unfolding idset by auto
  then obtain dm es ind where
    im: "initMaps (rev_adj s) ?ts ([], [], []) = Some (dm, es, ind)"
    and kd: "fst ` set dm = ?V" and ke: "fst ` set es = ?V" and ki: "fst ` set ind = ?V"
    and v: "\<forall>t\<in>set ?ts. lookup0 dm (todo_id t) = duration t \<and> lookup0 es (todo_id t) = 0 \<and>
        lookup0 ind (todo_id t) = int (length (case map_of (rev_adj s) (todo_id t) of None \<Rightarrow> [] | Some ps \<Rightarrow> ps))"
    by (elim exE conjE) (rule that; assumption)
  have vals: "\<And>n. n \<in> ?V \<Longrightarrow> lookup0 dm n = durationOf s n \<and> lookup0 es n = 0 \<and>
        lookup0 ind n = int (length (getParentIds s n))"
  proof -
    fix n assume "n \<in> ?V"
    then obtain t where t: "map_of (idToTodo s) n = Some t"
      using map_of_eq_None_iff[of "idToTodo s" n] by (auto simp: allTodoIds_def)
    then have tid: "todo_id t = n" using w wf_todo_key by simp
    have "t \<in> set ?ts" using t by (force dest: map_of_SomeD)
    then show "lookup0 dm n = durationOf s n \<and> lookup0 es n = 0 \<and>
        lookup0 ind n = int (length (getParentIds s n))"
      using v tid t by (auto simp: durationOf_def getParentIds_def)
  qed
  have G: "kahn_graph ?V (getChildrenOf s) dm"
    unfolding kahn_graph_def using w wf_children_distinct wf_children_tasks kd by auto
  have P: "\<And>n. preds ?V (getChildrenOf s) n = set (getParentIds s n)" using w by (rule wf_preds)
  have card: "\<And>n. card (set (getParentIds s n)) = length (getParentIds s n)"
    using wf_parents_distinct[OF w] by (simp add: distinct_card)
  have I0: "kahn_inv ?V (getChildrenOf s) dm {} (rootNodes s, es, ind)"
  proof (rule kahn_init)
    show "finite ?V" by simp
    show "distinct (rootNodes s)" using w by (rule wf_rootNodes)
    show "set (rootNodes s) = {n \<in> ?V. preds ?V (getChildrenOf s) n = {}}"
      using wf_rootNodes(2)[OF w] P by simp
    show "fst ` set es = ?V" by (rule ke)
    show "fst ` set ind = ?V" by (rule ki)
    show "\<forall>n\<in>?V. lookup0 es n = 0" using vals by simp
    show "\<forall>n\<in>?V. lookup0 ind n = int (card (preds ?V (getChildrenOf s) n))"
      using vals P card by simp
  qed
  from kahn_run[OF G I0] obtain es' ind' where
    "kahnLoop (getChildrenOf s) dm (rootNodes s, es, ind) = Some ([], es', ind')"
    "kahn_inv ?V (getChildrenOf s) dm ({} \<union> set (kahnOrder (getChildrenOf s) dm (rootNodes s, es, ind))) ([], es', ind')"
    "distinct (kahnOrder (getChildrenOf s) dm (rootNodes s, es, ind))"
    by (elim exE conjE) (rule that; assumption)
  then show ?thesis using im vals by auto
qed

lemma calc_correct:
  assumes w: "wf_dag s"
  shows "\<exists>s'. calculateEarliestStartTimes s = Some s' \<and>
     adj s' = adj s \<and> rev_adj s' = rev_adj s \<and> safeTargetsCache s' = safeTargetsCache s \<and>
     map fst (idToTodo s') = map fst (idToTodo s) \<and>
     (\<forall>k. map_of (idToTodo s') k =
        map_option (\<lambda>t. t\<lparr>minimumHours := startOf s' k\<rparr>) (map_of (idToTodo s) k)) \<and>
     distinct (processedTasks s) \<and> set (processedTasks s) \<subseteq> set (allTodoIds s) \<and>
     (\<forall>n\<in>set (allTodoIds s).
        (n \<in> set (processedTasks s)) = (set (getParentIds s n) \<subseteq> set (processedTasks s))) \<and>
     (\<forall>n\<in>set (allTodoIds s). startOf s' n =
        Max (insert 0 ((\<lambda>p. startOf s' p + durationOf s p) `
               (set (getParentIds s n) \<inter> set (processedTasks s))))) \<and>
     (\<forall>n\<in>set (processedTasks s). \<forall>c. (c, n) \<in> (edges s)\<^sup>* \<longrightarrow> (c, c) \<notin> (edges s)\<^sup>+)"
proof -
  let ?V = "set (allTodoIds s)"
  from calc_run[OF w] obtain dm es ind es' ind' where
    im: "initMaps (rev_adj s) (map snd (idToTodo s)) ([], [], []) = Some (dm, es, ind)"
    and kl: "kahnLoop (getChildrenOf s) dm (rootNodes s, es, ind) = Some ([], es', ind')"
    and dv: "\<forall>n\<in>?V. lookup0 dm n = durationOf s n"
    and inv: "kahn_inv ?V (getChildrenOf s) dm
       (set (kahnOrder (getChildrenOf s) dm (rootNodes s, es, ind))) ([], es', ind')"
    and dist: "distinct (kahnOrder (getChildrenOf s) dm (rootNodes s, es, ind))"
    by (elim exE conjE) (rule that; assumption)
  define s' where "s' = s\<lparr>idToTodo := storeMinimumHours es' (idToTodo s)\<rparr>"
  have calc: "calculateEarliestStartTimes s = Some s'"
    by (simp add: calculateEarliestStartTimes_def nbrs_eq im kl s'_def)
  have proc: "processedTasks s = kahnOrder (getChildrenOf s) dm (rootNodes s, es, ind)"
    by (simp add: processedTasks_def nbrs_eq im)
  have P: "\<And>n. preds ?V (getChildrenOf s) n = set (getParentIds s n)" using w by (rule wf_preds)
  have E: "kedges ?V (getChildrenOf s) = edges s" using w by (rule wf_kedges)
  have mo: "\<And>k. map_of (idToTodo s') k =
      map_option (\<lambda>t. t\<lparr>minimumHours := lookup0 es' (todo_id t)\<rparr>) (map_of (idToTodo s) k)"
    by (simp add: s'_def map_of_storeMinimumHours)
  have st: "\<And>n. n \<in> ?V \<Longrightarrow> startOf s' n = lookup0 es' n"
  proof -
    fix n assume "n \<in> ?V"
    then obtain t where t: "map_of (idToTodo s) n = Some t"
      using map_of_eq_None_iff[of "idToTodo s" n] by (auto simp: allTodoIds_def)
    then have "todo_id t = n" using w wf_todo_key by simp
    then show "startOf s' n = lookup0 es' n" using t mo[of n] by (simp add: startOf_def)
  qed
  have mo': "\<forall>k. map_of (idToTodo s') k =
      map_option (\<lambda>t. t\<lparr>minimumHours := startOf s' k\<rparr>) (map_of (idToTodo s) k)"
  proof
    fix k
    show "map_of (idToTodo s') k = map_option (\<lambda>t. t\<lparr>minimumHours := startOf s' k\<rparr>) (map_of (idToTodo s) k)"
    proof (cases "map_of (idToTodo s) k")
      case None
      then show ?thesis using mo[of k] by simp
    next
      case (Some t)
      then have "todo_id t = k" using w wf_todo_key by simp
      then show ?thesis using Some mo[of k] by (simp add: startOf_def)
    qed
  qed
  from inv have DV: "set (processedTasks s) \<subseteq> ?V"
    and id: "\<forall>n\<in>?V. (n \<in> set (processedTasks s)) = (set (getParentIds s n) \<subseteq> set (processedTasks s))"
    and ie: "\<forall>n\<in>?V. lookup0 es' n =
        Max (insert 0 (finish es' dm ` (set (getParentIds s n) \<inter> set (processedTasks s))))"
    and icy: "\<forall>n\<in>set (processedTasks s). \<forall>c. (c, n) \<in> (edges s)\<^sup>* \<longrightarrow> (c, c) \<notin> (edges s)\<^sup>+"
    unfolding kahn_inv_def proc[symmetric] P E by auto
  have fin: "\<And>p. p \<in> ?V \<Longrightarrow> finish es' dm p = startOf s' p + durationOf s p"
    using st dv by (simp add: finish_def)
  have ie': "\<forall>n\<in>?V. startOf s' n =
        Max (insert 0 ((\<lambda>p. startOf s' p + durationOf s p) `
               (set (getParentIds s n) \<inter> set (processedTasks s))))"
  proof
    fix n assume n: "n \<in> ?V"
    have "finish es' dm ` (set (getParentIds s n) \<inter> set (processedTasks s))
        = (\<lambda>p. startOf s' p + durationOf s p) ` (set (getParentIds s n) \<inter> set (processedTasks s))"
      using fin DV by (intro image_cong) auto
    then show "startOf s' n = Max (insert 0 ((\<lambda>p. startOf s' p + durationOf s p) `
               (set (getParentIds s n) \<inter> set (processedTasks s))))"
      using ie n st by simp
  qed
  have "adj s' = adj s" "rev_adj s' = rev_adj s" "safeTargetsCache s' = safeTargetsCache s"
    "map fst (idToTodo s') = map fst (idToTodo s)"
    by (simp_all add: s'_def keys_storeMinimumHours)
  then show ?thesis using calc mo' dist proc DV id ie' icy by auto
qed

lemma finite_edges: "finite (edges s)"
proof -
  have "edges s \<subseteq> fst ` set (adj s) \<times> (\<Union>(k, ns)\<in>set (adj s). set ns)"
    by (auto simp: edges_def dest!: map_of_SomeD) force+
  then show ?thesis by (rule finite_subset) auto
qed

lemma durationOf_calc:
  "\<forall>k. map_of (idToTodo s') k = map_option (\<lambda>t. t\<lparr>minimumHours := f k\<rparr>) (map_of (idToTodo s) k)
   \<Longrightarrow> durationOf s' n = durationOf s n"
  by (cases "map_of (idToTodo s) n") (simp_all add: durationOf_def)

lemma initMaps_minimumHours:
  "initMaps r (map (\<lambda>t. t\<lparr>minimumHours := f t\<rparr>) ts) m = initMaps r ts m"
proof (induction ts arbitrary: m)
  case Nil
  then show ?case by simp
next
  case (Cons t ts)
  obtain dm es ind where m: "m = (dm, es, ind)" by (cases m)
  show ?case unfolding m using Cons.IH by (simp split: option.splits)
qed

lemma snd_storeMinimumHours:
  "map snd (storeMinimumHours es todos)
     = map (\<lambda>t. t\<lparr>minimumHours := lookup0 es (todo_id t)\<rparr>) (map snd todos)"
  by (induction todos) (auto simp: storeMinimumHours_def lookup0_def)

lemma storeMinimumHours_twice:
  "storeMinimumHours es (storeMinimumHours es todos) = storeMinimumHours es todos"
  by (induction todos) (auto simp: storeMinimumHours_def)

lemma calc_idempotent:
  assumes "calculateEarliestStartTimes s = Some s'"
  shows "calculateEarliestStartTimes s' = Some s'"
proof -
  from assms obtain dm es ind where
    im: "initMaps (rev_adj s) (map snd (idToTodo s)) ([], [], []) = Some (dm, es, ind)"
    by (auto simp: calculateEarliestStartTimes_def split: option.splits)
  from assms im obtain q es' ind' where
    kl: "kahnLoop (getChildrenOf s) dm (rootNodes s, es, ind) = Some (q, es', ind')"
    by (auto simp: calculateEarliestStartTimes_def nbrs_eq split: option.splits)
  from assms im kl have s': "s' = s\<lparr>idToTodo := storeMinimumHours es' (idToTodo s)\<rparr>"
    by (simp add: calculateEarliestStartTimes_def nbrs_eq)
  have "map snd (idToTodo s')
      = map (\<lambda>t. t\<lparr>minimumHours := lookup0 es' (todo_id t)\<rparr>) (map snd (idToTodo s))"
  proof -
    have "idToTodo s' = storeMinimumHours es' (idToTodo s)" by (simp add: s')
    then show ?thesis by (simp only: snd_storeMinimumHours)
  qed
  moreover have "rev_adj s' = rev_adj s" by (simp add: s')
  ultimately have im': "initMaps (rev_adj s') (map snd (idToTodo s')) ([], [], []) = Some (dm, es, ind)"
    using im by (simp only: initMaps_minimumHours)
  have c: "getChildrenOf s' = getChildrenOf s" by (rule ext) (simp add: s' getChildrenOf_def)
  have r: "rootNodes s' = rootNodes s" by (simp add: s' rootNodes_def)
  show ?thesis
    by (simp add: calculateEarliestStartTimes_def nbrs_eq im' c r kl)
       (simp add: s' storeMinimumHours_twice)
qed

section \<open>Well-formedness is preserved\<close>

lemma wf_dag_iff:
  "wf_dag s \<longleftrightarrow>
     distinct (map fst (adj s)) \<and> distinct (map fst (rev_adj s)) \<and> distinct (map fst (idToTodo s)) \<and>
     (\<forall>c. distinct (getChildrenOf s c)) \<and> (\<forall>c. distinct (getParentIds s c)) \<and>
     fst ` set (adj s) = fst ` set (idToTodo s) \<and> fst ` set (rev_adj s) = fst ` set (idToTodo s) \<and>
     (\<forall>k t. map_of (idToTodo s) k = Some t \<longrightarrow> todo_id t = k) \<and>
     (\<forall>p d. d \<in> set (getChildrenOf s p) \<longleftrightarrow> p \<in> set (getParentIds s d))"
  (is "_ \<longleftrightarrow> ?R")
proof
  assume w: "wf_dag s"
  then show ?R
    using wf_children_distinct[OF w] wf_parents_distinct[OF w] wf_mirror[OF w] wf_todo_key[OF w]
    by (simp add: wf_dag_def)
next
  assume r: ?R
  then have d1: "distinct (map fst (adj s))" and d2: "distinct (map fst (rev_adj s))"
    and d3: "distinct (map fst (idToTodo s))" by simp_all
  have c: "\<And>k ns. (k, ns) \<in> set (adj s) \<Longrightarrow> getChildrenOf s k = ns"
    using d1 by (simp add: getChildrenOf_def)
  have p: "\<And>k ps. (k, ps) \<in> set (rev_adj s) \<Longrightarrow> getParentIds s k = ps"
    using d2 by (simp add: getParentIds_def)
  have t: "\<And>k t. (k, t) \<in> set (idToTodo s) \<Longrightarrow> map_of (idToTodo s) k = Some t"
    using d3 by simp
  have a1: "\<forall>(k, ns)\<in>set (adj s). distinct ns" using r c by fastforce
  have a2: "\<forall>(k, ps)\<in>set (rev_adj s). distinct ps" using r p by fastforce
  have a3: "\<forall>(k, t)\<in>set (idToTodo s). todo_id t = k" using r t by fastforce
  have a4: "\<forall>(p, ns)\<in>set (adj s). \<forall>d\<in>set ns. p \<in> set (getParentIds s d)" using r c by fastforce
  have a5: "\<forall>(d, ps)\<in>set (rev_adj s). \<forall>p\<in>set ps. d \<in> set (getChildrenOf s p)" using r p by fastforce
  show "wf_dag s" unfolding wf_dag_def using r a1 a2 a3 a4 a5 by simp
qed

lemma wf_calc:
  assumes "wf_dag s" and "calculateEarliestStartTimes s = Some s'"
  shows "wf_dag s'"
proof -
  from calc_correct[OF assms(1)] assms(2) have
    a: "adj s' = adj s" and r: "rev_adj s' = rev_adj s"
    and k: "map fst (idToTodo s') = map fst (idToTodo s)"
    and mo: "\<forall>k. map_of (idToTodo s') k =
        map_option (\<lambda>t. t\<lparr>minimumHours := startOf s' k\<rparr>) (map_of (idToTodo s) k)"
    by auto
  have c: "getChildrenOf s' = getChildrenOf s" by (rule ext) (simp add: getChildrenOf_def a)
  have p: "getParentIds s' = getParentIds s" by (rule ext) (simp add: getParentIds_def r)
  have ks: "fst ` set (idToTodo s') = fst ` set (idToTodo s)"
    using arg_cong[OF k, of set] by simp
  have t: "\<forall>k t. map_of (idToTodo s') k = Some t \<longrightarrow> todo_id t = k"
    using mo wf_todo_key[OF assms(1)] by auto
  show ?thesis using assms(1) t unfolding wf_dag_iff a r k c p ks by simp
qed

lemma wf_emptyDag: "wf_dag emptyDag"
  by (simp add: wf_dag_def emptyDag_def)

lemma wf_dagI:
  assumes "distinct (map fst (adj s))" "distinct (map fst (rev_adj s))" "distinct (map fst (idToTodo s))"
    and "\<And>c. distinct (getChildrenOf s c)" "\<And>c. distinct (getParentIds s c)"
    and "fst ` set (adj s) = fst ` set (idToTodo s)" "fst ` set (rev_adj s) = fst ` set (idToTodo s)"
    and "\<And>k t. map_of (idToTodo s) k = Some t \<Longrightarrow> todo_id t = k"
    and "\<And>p d. d \<in> set (getChildrenOf s p) \<longleftrightarrow> p \<in> set (getParentIds s d)"
  shows "wf_dag s"
  unfolding wf_dag_iff by (intro conjI allI impI assms)

lemma wf_dagD:
  assumes "wf_dag s"
  shows "distinct (map fst (adj s))" "distinct (map fst (rev_adj s))" "distinct (map fst (idToTodo s))"
    and "\<And>c. distinct (getChildrenOf s c)" "\<And>c. distinct (getParentIds s c)"
    and "fst ` set (adj s) = fst ` set (idToTodo s)" "fst ` set (rev_adj s) = fst ` set (idToTodo s)"
    and "\<And>k t. map_of (idToTodo s) k = Some t \<Longrightarrow> todo_id t = k"
    and "\<And>p d. d \<in> set (getChildrenOf s p) \<longleftrightarrow> p \<in> set (getParentIds s d)"
  using assms unfolding wf_dag_iff by simp_all

lemma wf_set_addNode:
  assumes w: "wf_dag s"
  shows "wf_dag (addNode (s\<lparr>idToTodo := AList.update (todo_id t) t (idToTodo s)\<rparr>) (todo_id t))"
proof -
  define k where "k = todo_id t"
  define s1 where "s1 = addNode (s\<lparr>idToTodo := AList.update k t (idToTodo s)\<rparr>) k"
  note W = wf_dagD[OF w]
  have idt: "idToTodo s1 = AList.update k t (idToTodo s)" by (simp add: s1_def addNode_def)
  have t1: "distinct (map fst (idToTodo s1))" using W(3) by (simp add: idt distinct_update)
  have t2: "\<And>j u. map_of (idToTodo s1) j = Some u \<Longrightarrow> todo_id u = j"
    using W(8) by (auto simp: idt update_conv' k_def split: if_splits)
  have "wf_dag s1"
  proof (cases "has (adj s) k")
    case True
    then have in_k: "k \<in> fst ` set (idToTodo s)"
      using map_of_eq_None_iff[of "adj s" k] W(6) by (simp add: has_def)
    have a: "adj s1 = adj s" and r: "rev_adj s1 = rev_adj s"
      using True by (simp_all add: s1_def addNode_def)
    have c: "getChildrenOf s1 = getChildrenOf s" by (rule ext) (simp add: getChildrenOf_def a)
    have p: "getParentIds s1 = getParentIds s" by (rule ext) (simp add: getParentIds_def r)
    have ks: "fst ` set (idToTodo s1) = fst ` set (idToTodo s)"
      using in_k by (auto simp: idt dom_update)
    show ?thesis
      by (rule wf_dagI) (simp_all add: a r c p ks W t1 t2)
  next
    case False
    then have nk: "k \<notin> fst ` set (adj s)" "k \<notin> fst ` set (rev_adj s)"
      using map_of_eq_None_iff[of "adj s" k] W(6,7) by (simp_all add: has_def)
    have a: "adj s1 = AList.update k [] (adj s)" and r: "rev_adj s1 = AList.update k [] (rev_adj s)"
      using False by (simp_all add: s1_def addNode_def)
    have c0: "map_of (adj s) k = None" using nk map_of_eq_None_iff[of "adj s" k] by simp
    have p0: "map_of (rev_adj s) k = None" using nk map_of_eq_None_iff[of "rev_adj s" k] by simp
    have c: "getChildrenOf s1 = getChildrenOf s"
      by (rule ext) (simp add: getChildrenOf_def a update_conv' c0)
    have p: "getParentIds s1 = getParentIds s"
      by (rule ext) (simp add: getParentIds_def r update_conv' p0)
    have d1: "distinct (map fst (adj s1))" "distinct (map fst (rev_adj s1))"
      using W(1,2) by (simp_all add: a r distinct_update)
    have ks: "fst ` set (adj s1) = fst ` set (idToTodo s1)" "fst ` set (rev_adj s1) = fst ` set (idToTodo s1)"
      using W(6,7) by (simp_all add: idt a r dom_update)
    show ?thesis
      by (rule wf_dagI) (simp_all add: c p ks d1 W t1 t2)
  qed
  then show ?thesis by (simp add: s1_def k_def)
qed

lemma set_setAdd: "set (setAdd x xs) = insert x (set xs)"
  by (auto simp: setAdd_def)

lemma distinct_setAdd: "distinct xs \<Longrightarrow> distinct (setAdd x xs)"
  by (simp add: setAdd_def)

lemma keys_update_present: "k \<in> fst ` set m \<Longrightarrow> map fst (AList.update k v m) = map fst m"
  by (simp add: update_keys)

lemma key_of_Some: "map_of m k = Some v \<Longrightarrow> k \<in> fst ` set m"
  using map_of_eq_None_iff[of m k] by auto

lemma hasTodo_key: "hasTodo s k \<longleftrightarrow> k \<in> fst ` set (idToTodo s)"
  using map_of_eq_None_iff[of "idToTodo s" k] by (auto simp: hasTodo_def has_def)

lemma addDependency_result:
  assumes w: "wf_dag s" and f: "hasTodo s from" and t: "hasTodo s to"
  shows "\<exists>s'. addDependency s from to = Some (True, s') \<and> wf_dag s' \<and>
           idToTodo s' = idToTodo s \<and> safeTargetsCache s' = [] \<and>
           edges s' = insert (from, to) (edges s)"
proof -
  note W = wf_dagD[OF w]
  from f W(6) obtain ns where ns: "map_of (adj s) from = Some ns"
    using map_of_eq_None_iff[of "adj s" "from"] by (auto simp: hasTodo_key)
  from t W(7) obtain ps where ps: "map_of (rev_adj s) to = Some ps"
    using map_of_eq_None_iff[of "rev_adj s" to] by (auto simp: hasTodo_key)
  define s' where "s' = s\<lparr>adj := AList.update from (setAdd to ns) (adj s),
                          rev_adj := AList.update to (setAdd from ps) (rev_adj s),
                          safeTargetsCache := []\<rparr>"
  have r: "addDependency s from to = Some (True, s')"
    using f t ns ps by (simp add: addDependency_def s'_def)
  have c: "\<And>c. getChildrenOf s' c = (if c = from then setAdd to (getChildrenOf s c) else getChildrenOf s c)"
    using ns by (simp add: getChildrenOf_def s'_def update_conv')
  have p: "\<And>c. getParentIds s' c = (if c = to then setAdd from (getParentIds s c) else getParentIds s c)"
    using ps by (simp add: getParentIds_def s'_def update_conv')
  have ka: "map fst (adj s') = map fst (adj s)"
    using key_of_Some[OF ns] by (simp add: s'_def keys_update_present)
  have kr: "map fst (rev_adj s') = map fst (rev_adj s)"
    using key_of_Some[OF ps] by (simp add: s'_def keys_update_present)
  have kas: "fst ` set (adj s') = fst ` set (adj s)" using arg_cong[OF ka, of set] by simp
  have krs: "fst ` set (rev_adj s') = fst ` set (rev_adj s)" using arg_cong[OF kr, of set] by simp
  have idt: "idToTodo s' = idToTodo s" by (simp add: s'_def)
  have w': "wf_dag s'"
  proof (rule wf_dagI)
    show "distinct (map fst (adj s'))" using W(1) ka by simp
    show "distinct (map fst (rev_adj s'))" using W(2) kr by simp
    show "distinct (map fst (idToTodo s'))" using W(3) idt by simp
    show "\<And>c. distinct (getChildrenOf s' c)" using W(4) by (simp add: c distinct_setAdd)
    show "\<And>c. distinct (getParentIds s' c)" using W(5) by (simp add: p distinct_setAdd)
    show "fst ` set (adj s') = fst ` set (idToTodo s')" using W(6) kas idt by simp
    show "fst ` set (rev_adj s') = fst ` set (idToTodo s')" using W(7) krs idt by simp
    show "\<And>k t. map_of (idToTodo s') k = Some t \<Longrightarrow> todo_id t = k" using W(8) idt by simp
    show "\<And>p d. d \<in> set (getChildrenOf s' p) \<longleftrightarrow> p \<in> set (getParentIds s' d)"
      using W(9) by (auto simp: c p set_setAdd)
  qed
  have e: "edges s' = insert (from, to) (edges s)"
    by (auto simp: edges_children c set_setAdd split: if_splits)
  show ?thesis using r w' idt e by (simp add: s'_def)
qed

lemma wf_deleteDependency_pre:
  assumes w: "wf_dag s"
  shows "wf_dag (s\<lparr>adj := (case map_of (adj s) from of
                          None \<Rightarrow> adj s
                        | Some ns \<Rightarrow> AList.update from (removeAll to ns) (adj s)),
                rev_adj := (case map_of (rev_adj s) to of
                          None \<Rightarrow> rev_adj s
                        | Some ps \<Rightarrow> AList.update to (removeAll from ps) (rev_adj s)),
                safeTargetsCache := []\<rparr>)" (is "wf_dag ?s")
proof -
  note W = wf_dagD[OF w]
  define s' where "s' = ?s"
  have c: "\<And>c. getChildrenOf s' c = (if c = from then removeAll to (getChildrenOf s c) else getChildrenOf s c)"
    by (cases "map_of (adj s) from") (simp_all add: getChildrenOf_def s'_def update_conv')
  have p: "\<And>c. getParentIds s' c = (if c = to then removeAll from (getParentIds s c) else getParentIds s c)"
    by (cases "map_of (rev_adj s) to") (simp_all add: getParentIds_def s'_def update_conv')
  have ka: "map fst (adj s') = map fst (adj s)"
    by (cases "map_of (adj s) from") (simp_all add: s'_def key_of_Some keys_update_present)
  have kr: "map fst (rev_adj s') = map fst (rev_adj s)"
    by (cases "map_of (rev_adj s) to") (simp_all add: s'_def key_of_Some keys_update_present)
  have kas: "fst ` set (adj s') = fst ` set (adj s)" using arg_cong[OF ka, of set] by simp
  have krs: "fst ` set (rev_adj s') = fst ` set (rev_adj s)" using arg_cong[OF kr, of set] by simp
  have idt: "idToTodo s' = idToTodo s" by (simp add: s'_def)
  have "wf_dag s'"
  proof (rule wf_dagI)
    show "distinct (map fst (adj s'))" using W(1) ka by simp
    show "distinct (map fst (rev_adj s'))" using W(2) kr by simp
    show "distinct (map fst (idToTodo s'))" using W(3) idt by simp
    show "\<And>c. distinct (getChildrenOf s' c)" using W(4) by (simp add: c distinct_removeAll)
    show "\<And>c. distinct (getParentIds s' c)" using W(5) by (simp add: p distinct_removeAll)
    show "fst ` set (adj s') = fst ` set (idToTodo s')" using W(6) kas idt by simp
    show "fst ` set (rev_adj s') = fst ` set (idToTodo s')" using W(7) krs idt by simp
    show "\<And>k t. map_of (idToTodo s') k = Some t \<Longrightarrow> todo_id t = k" using W(8) idt by simp
    show "\<And>p d. d \<in> set (getChildrenOf s' p) \<longleftrightarrow> p \<in> set (getParentIds s' d)"
      using W(9) by (auto simp: c p)
  qed
  then show ?thesis by (simp add: s'_def)
qed

lemma map_of_map_removeAll:
  "map_of (map (\<lambda>(k, xs). (k, removeAll n xs)) m) c = map_option (removeAll n) (map_of m c)"
  by (induction m) auto

lemma wf_deleteNode_pre:
  assumes w: "wf_dag s"
  shows "wf_dag (s\<lparr>idToTodo := AList.delete node (idToTodo s),
           adj := map (\<lambda>(k, from). (k, removeAll node from)) (AList.delete node (adj s)),
           rev_adj := map (\<lambda>(k, to). (k, removeAll node to)) (AList.delete node (rev_adj s)),
           safeTargetsCache := []\<rparr>)" (is "wf_dag ?s")
proof -
  note W = wf_dagD[OF w]
  define s' where "s' = ?s"
  have c: "\<And>c. getChildrenOf s' c = (if c = node then [] else removeAll node (getChildrenOf s c))"
    by (auto simp: getChildrenOf_def s'_def map_of_map_removeAll delete_conv' split: option.splits)
  have p: "\<And>c. getParentIds s' c = (if c = node then [] else removeAll node (getParentIds s c))"
    by (auto simp: getParentIds_def s'_def map_of_map_removeAll delete_conv' split: option.splits)
  have fm: "\<And>m. map fst (map (\<lambda>(k, xs). (k, removeAll node xs)) m) = map fst (m :: (int \<times> int list) list)"
    by (simp add: case_prod_beta comp_def)
  have "adj s' = map (\<lambda>(k, xs). (k, removeAll node xs)) (AList.delete node (adj s))"
    by (simp add: s'_def)
  then have ka: "map fst (adj s') = removeAll node (map fst (adj s))"
    by (simp only: fm delete_keys)
  have "rev_adj s' = map (\<lambda>(k, xs). (k, removeAll node xs)) (AList.delete node (rev_adj s))"
    by (simp add: s'_def)
  then have kr: "map fst (rev_adj s') = removeAll node (map fst (rev_adj s))"
    by (simp only: fm delete_keys)
  have kt: "map fst (idToTodo s') = removeAll node (map fst (idToTodo s))"
    by (simp add: s'_def delete_keys)
  have kas: "fst ` set (adj s') = fst ` set (adj s) - {node}" using arg_cong[OF ka, of set] by simp
  have krs: "fst ` set (rev_adj s') = fst ` set (rev_adj s) - {node}" using arg_cong[OF kr, of set] by simp
  have kts: "fst ` set (idToTodo s') = fst ` set (idToTodo s) - {node}" using arg_cong[OF kt, of set] by simp
  have mt: "\<And>k. map_of (idToTodo s') k = (if k = node then None else map_of (idToTodo s) k)"
    by (simp add: s'_def delete_conv')
  have "wf_dag s'"
  proof (rule wf_dagI)
    show "distinct (map fst (adj s'))" using W(1) ka by (simp add: distinct_removeAll)
    show "distinct (map fst (rev_adj s'))" using W(2) kr by (simp add: distinct_removeAll)
    show "distinct (map fst (idToTodo s'))" using W(3) kt by (simp add: distinct_removeAll)
    show "\<And>c. distinct (getChildrenOf s' c)" using W(4) by (simp add: c distinct_removeAll)
    show "\<And>c. distinct (getParentIds s' c)" using W(5) by (simp add: p distinct_removeAll)
    show "fst ` set (adj s') = fst ` set (idToTodo s')" using W(6) kas kts by simp
    show "fst ` set (rev_adj s') = fst ` set (idToTodo s')" using W(7) krs kts by simp
    show "\<And>k t. map_of (idToTodo s') k = Some t \<Longrightarrow> todo_id t = k"
      using W(8) by (simp add: mt split: if_splits)
    show "\<And>p d. d \<in> set (getChildrenOf s' p) \<longleftrightarrow> p \<in> set (getParentIds s' d)"
      using W(9) by (auto simp: c p)
  qed
  then show ?thesis by (simp add: s'_def)
qed

section \<open>The chain scenario\<close>

lemma twoTasks_state: "twoTasks = Some twoTasksState"
  by (simp add: twoTasks_eval twoTasksState_def)

lemma chain_add: "addDependency twoTasksState 1 2 = Some (True, chainState)"
  by (simp add: eval_defs twoTasksState_def chainState_def)

lemma chain_calc: "calculateEarliestStartTimes chainState = Some chainScheduled"
  by (simp add: eval_defs chainState_def chainScheduled_def)

lemma chain_calc2: "calculateEarliestStartTimes chainScheduled = Some chainScheduled"
  by (simp add: eval_defs chainState_def chainScheduled_def)

lemma wf_chainScheduled: "wf_dag chainScheduled"
  by (simp add: wf_dag_def chainScheduled_def chainState_def task_def getParentIds_def getChildrenOf_def)

lemma wf_chainState: "wf_dag chainState"
  by (simp add: wf_dag_def chainState_def task_def getParentIds_def getChildrenOf_def)

lemma overwrite_eval: "addTodo chainScheduled (task 1 7) = Some overwrittenState"
  by (simp add: eval_defs chainState_def chainScheduled_def overwrittenState_def)

section \<open>What the mutators leave behind\<close>

lemma addTodo_result:
  assumes w: "wf_dag s"
  shows "\<exists>s'. addTodo s t = Some s' \<and> wf_dag s' \<and> calculateEarliestStartTimes s' = Some s' \<and>
      safeTargetsCache s' = safeTargetsCache s \<and>
      adj s' = adj (addNode s (todo_id t)) \<and> rev_adj s' = rev_adj (addNode s (todo_id t)) \<and>
      map fst (idToTodo s') = map fst (AList.update (todo_id t) t (idToTodo s)) \<and>
      (\<forall>k. map_of (idToTodo s') k =
         map_option (\<lambda>u. u\<lparr>minimumHours := startOf s' k\<rparr>) (((map_of (idToTodo s))(todo_id t \<mapsto> t)) k))"
proof -
  define s1 where "s1 = addNode (s\<lparr>idToTodo := AList.update (todo_id t) t (idToTodo s)\<rparr>) (todo_id t)"
  have w1: "wf_dag s1" unfolding s1_def using w by (rule wf_set_addNode)
  from calc_correct[OF w1] obtain s' where
    c: "calculateEarliestStartTimes s1 = Some s'"
    and a: "adj s' = adj s1" and r: "rev_adj s' = rev_adj s1"
    and sc: "safeTargetsCache s' = safeTargetsCache s1"
    and k: "map fst (idToTodo s') = map fst (idToTodo s1)"
    and mo: "\<forall>k. map_of (idToTodo s') k =
        map_option (\<lambda>t. t\<lparr>minimumHours := startOf s' k\<rparr>) (map_of (idToTodo s1) k)"
    by (elim exE conjE) (rule that; assumption)
  have "addTodo s t = Some s'" using c by (simp add: addTodo_def s1_def)
  moreover have "wf_dag s'" using w1 c by (rule wf_calc)
  moreover have "calculateEarliestStartTimes s' = Some s'" using c by (rule calc_idempotent)
  moreover have "safeTargetsCache s1 = safeTargetsCache s" "adj s1 = adj (addNode s (todo_id t))"
    "rev_adj s1 = rev_adj (addNode s (todo_id t))"
    "idToTodo s1 = AList.update (todo_id t) t (idToTodo s)"
    by (simp_all add: s1_def addNode_def)
  ultimately show ?thesis using a r sc k mo by (simp add: update_conv')
qed

lemma deleteDependency_result:
  assumes w: "wf_dag s" and h: "hasDependency s from to = Some True"
  shows "\<exists>s'. deleteDependency s from to = Some s' \<and> wf_dag s' \<and>
      calculateEarliestStartTimes s' = Some s' \<and> safeTargetsCache s' = []"
proof -
  define s1 where "s1 = s\<lparr>adj := (case map_of (adj s) from of
                          None \<Rightarrow> adj s
                        | Some ns \<Rightarrow> AList.update from (removeAll to ns) (adj s)),
                rev_adj := (case map_of (rev_adj s) to of
                          None \<Rightarrow> rev_adj s
                        | Some ps \<Rightarrow> AList.update to (removeAll from ps) (rev_adj s)),
                safeTargetsCache := []\<rparr>"
  have w1: "wf_dag s1" unfolding s1_def using w by (rule wf_deleteDependency_pre)
  from calc_correct[OF w1] obtain s' where
    c: "calculateEarliestStartTimes s1 = Some s'" and sc: "safeTargetsCache s' = safeTargetsCache s1"
    by auto
  have "deleteDependency s from to = Some s'" using c h by (simp add: deleteDependency_def s1_def)
  moreover have "wf_dag s'" using w1 c by (rule wf_calc)
  moreover have "calculateEarliestStartTimes s' = Some s'" using c by (rule calc_idempotent)
  moreover have "safeTargetsCache s' = []" using sc by (simp add: s1_def)
  ultimately show ?thesis by simp
qed

lemma deleteNode_result:
  assumes w: "wf_dag s"
  shows "\<exists>s'. deleteNode s node = Some s' \<and> wf_dag s' \<and>
      calculateEarliestStartTimes s' = Some s' \<and> safeTargetsCache s' = []"
proof -
  define s1 where "s1 = s\<lparr>idToTodo := AList.delete node (idToTodo s),
           adj := map (\<lambda>(k, from). (k, removeAll node from)) (AList.delete node (adj s)),
           rev_adj := map (\<lambda>(k, to). (k, removeAll node to)) (AList.delete node (rev_adj s)),
           safeTargetsCache := []\<rparr>"
  have w1: "wf_dag s1" unfolding s1_def using w by (rule wf_deleteNode_pre)
  from calc_correct[OF w1] obtain s' where
    c: "calculateEarliestStartTimes s1 = Some s'" and sc: "safeTargetsCache s' = safeTargetsCache s1"
    by auto
  have "deleteNode s node = Some s'" using c by (simp add: deleteNode_def s1_def)
  moreover have "wf_dag s'" using w1 c by (rule wf_calc)
  moreover have "calculateEarliestStartTimes s' = Some s'" using c by (rule calc_idempotent)
  moreover have "safeTargetsCache s' = []" using sc by (simp add: s1_def)
  ultimately show ?thesis by simp
qed

section \<open>The scheduler of the second copy\<close>

lemma initMaps_w_result:
  "\<exists>g i dm es. initMaps_w todos ids (g0, i0, dm0, es0) = (g, i, dm, es) \<and>
     fst ` set g = fst ` set g0 \<union> set ids \<and> fst ` set i = fst ` set i0 \<union> set ids \<and>
     fst ` set dm = fst ` set dm0 \<union> set ids \<and> fst ` set es = fst ` set es0 \<union> set ids \<and>
     (distinct (map fst i0) \<longrightarrow> distinct (map fst i)) \<and>
     (distinct (map fst es0) \<longrightarrow> distinct (map fst es)) \<and>
     (\<forall>k. lookupList g k = (if k \<in> set ids then [] else lookupList g0 k)) \<and>
     (\<forall>k. lookup0 i k = (if k \<in> set ids then 0 else lookup0 i0 k)) \<and>
     (\<forall>k. lookup0 es k = (if k \<in> set ids then 0 else lookup0 es0 k)) \<and>
     (\<forall>k. lookup0 dm k = (if k \<in> set ids then (case map_of todos k of None \<Rightarrow> 0 | Some t \<Rightarrow> duration t)
                            else lookup0 dm0 k))"
proof (induction ids arbitrary: g0 i0 dm0 es0)
  case Nil
  then show ?case by simp
next
  case (Cons a ids)
  define g1 where "g1 = AList.update a [] g0"
  define i1 where "i1 = AList.update a 0 i0"
  define dm1 where "dm1 = AList.update a (case map_of todos a of None \<Rightarrow> 0 | Some t \<Rightarrow> duration t) dm0"
  define es1 where "es1 = AList.update a 0 es0"
  have step: "initMaps_w todos (a # ids) (g0, i0, dm0, es0) = initMaps_w todos ids (g1, i1, dm1, es1)"
    by (simp add: g1_def i1_def dm1_def es1_def)
  from Cons.IH[of g1 i1 dm1 es1] obtain g i dm es where
    r: "initMaps_w todos ids (g1, i1, dm1, es1) = (g, i, dm, es)"
    and k: "fst ` set g = fst ` set g1 \<union> set ids" "fst ` set i = fst ` set i1 \<union> set ids"
       "fst ` set dm = fst ` set dm1 \<union> set ids" "fst ` set es = fst ` set es1 \<union> set ids"
    and d: "distinct (map fst i1) \<longrightarrow> distinct (map fst i)"
       "distinct (map fst es1) \<longrightarrow> distinct (map fst es)"
    and v1: "\<forall>k. lookupList g k = (if k \<in> set ids then [] else lookupList g1 k)"
    and v2: "\<forall>k. lookup0 i k = (if k \<in> set ids then 0 else lookup0 i1 k)"
    and v3: "\<forall>k. lookup0 es k = (if k \<in> set ids then 0 else lookup0 es1 k)"
    and v4: "\<forall>k. lookup0 dm k = (if k \<in> set ids then (case map_of todos k of None \<Rightarrow> 0 | Some t \<Rightarrow> duration t)
                            else lookup0 dm1 k)"
    by (elim exE conjE) (rule that; assumption)
  have l: "\<And>k. lookupList g1 k = (if k = a then [] else lookupList g0 k)"
    "\<And>k. lookup0 i1 k = (if k = a then 0 else lookup0 i0 k)"
    "\<And>k. lookup0 es1 k = (if k = a then 0 else lookup0 es0 k)"
    "\<And>k. lookup0 dm1 k = (if k = a then (case map_of todos a of None \<Rightarrow> 0 | Some t \<Rightarrow> duration t)
                            else lookup0 dm0 k)"
    by (simp_all add: lookupList_def lookup0_def g1_def i1_def es1_def dm1_def update_conv')
  have a1: "fst ` set g = fst ` set g0 \<union> set (a # ids)" "fst ` set i = fst ` set i0 \<union> set (a # ids)"
       "fst ` set dm = fst ` set dm0 \<union> set (a # ids)" "fst ` set es = fst ` set es0 \<union> set (a # ids)"
    using k by (auto simp: g1_def i1_def dm1_def es1_def dom_update)
  have a2: "distinct (map fst i0) \<longrightarrow> distinct (map fst i)"
       "distinct (map fst es0) \<longrightarrow> distinct (map fst es)"
    using d by (simp_all add: i1_def es1_def distinct_update)
  have a3: "\<forall>k. lookupList g k = (if k \<in> set (a # ids) then [] else lookupList g0 k)"
    using v1 l by simp
  have a4: "\<forall>k. lookup0 i k = (if k \<in> set (a # ids) then 0 else lookup0 i0 k)"
    using v2 l by simp
  have a5: "\<forall>k. lookup0 es k = (if k \<in> set (a # ids) then 0 else lookup0 es0 k)"
    using v3 l by simp
  have a6: "\<forall>k. lookup0 dm k = (if k \<in> set (a # ids) then (case map_of todos k of None \<Rightarrow> 0 | Some t \<Rightarrow> duration t)
                            else lookup0 dm0 k)"
    using v4 l by simp
  show ?case unfolding step r using a1 a2 a3 a4 a5 a6 by (intro exI conjI) (rule refl | assumption)+
qed

lemma addDependents_result:
  "distinct deps \<Longrightarrow> set deps \<subseteq> fst ` set g \<Longrightarrow> t \<in> fst ` set i \<Longrightarrow>
   \<exists>g' i'. addDependents t deps (g, i) = Some (g', i') \<and>
     fst ` set g' = fst ` set g \<and> fst ` set i' = fst ` set i \<and>
     (distinct (map fst i) \<longrightarrow> distinct (map fst i')) \<and>
     (\<forall>c. lookupList g' c = (if c \<in> set deps then lookupList g c @ [t] else lookupList g c)) \<and>
     (\<forall>k. lookup0 i' k = (if k = t then lookup0 i k + int (length deps) else lookup0 i k))"
proof (induction deps arbitrary: g i)
  case Nil
  then show ?case by simp
next
  case (Cons dep deps)
  from Cons.prems obtain ds where ds: "map_of g dep = Some ds"
    using map_of_eq_None_iff[of g dep] by auto
  define g1 where "g1 = AList.update dep (ds @ [t]) g"
  define i1 where "i1 = AList.update t ((case map_of i t of None \<Rightarrow> 0 | Some n \<Rightarrow> n) + 1) i"
  have step: "addDependents t (dep # deps) (g, i) = addDependents t deps (g1, i1)"
    using ds by (simp add: g1_def i1_def)
  have kg: "fst ` set g1 = fst ` set g" using key_of_Some[OF ds] by (auto simp: g1_def dom_update)
  have ki: "fst ` set i1 = fst ` set i" using Cons.prems(3) by (auto simp: i1_def dom_update)
  have p: "distinct deps" "set deps \<subseteq> fst ` set g1" "t \<in> fst ` set i1"
    using Cons.prems kg ki by auto
  from Cons.IH[OF p] obtain g' i' where
    r: "addDependents t deps (g1, i1) = Some (g', i')"
    and k: "fst ` set g' = fst ` set g1" "fst ` set i' = fst ` set i1"
    and d: "distinct (map fst i1) \<longrightarrow> distinct (map fst i')"
    and v1: "\<forall>c. lookupList g' c = (if c \<in> set deps then lookupList g1 c @ [t] else lookupList g1 c)"
    and v2: "\<forall>k. lookup0 i' k = (if k = t then lookup0 i1 k + int (length deps) else lookup0 i1 k)"
    by (elim exE conjE) (rule that; assumption)
  have dn: "dep \<notin> set deps" using Cons.prems by simp
  have l1: "\<And>c. lookupList g1 c = (if c = dep then lookupList g c @ [t] else lookupList g c)"
    using ds by (simp add: lookupList_def g1_def update_conv')
  have l2: "\<And>k. lookup0 i1 k = (if k = t then lookup0 i k + 1 else lookup0 i k)"
    by (simp add: lookup0_def i1_def update_conv')
  have a1: "fst ` set g' = fst ` set g" "fst ` set i' = fst ` set i" using k kg ki by simp_all
  have a2: "distinct (map fst i) \<longrightarrow> distinct (map fst i')" using d by (simp add: i1_def distinct_update)
  have a3: "\<forall>c. lookupList g' c = (if c \<in> set (dep # deps) then lookupList g c @ [t] else lookupList g c)"
    using v1 l1 dn by auto
  have a4: "\<forall>k. lookup0 i' k = (if k = t then lookup0 i k + int (length (dep # deps)) else lookup0 i k)"
    using v2 l2 by simp
  show ?case unfolding step r using a1 a2 a3 a4 by (intro exI conjI) (rule refl | assumption)+
qed

lemma buildGraph_result:
  "distinct ids \<Longrightarrow> set ids \<subseteq> fst ` set i \<Longrightarrow>
   (\<forall>t\<in>set ids. distinct (lookupList r t) \<and> set (lookupList r t) \<subseteq> fst ` set g) \<Longrightarrow>
   \<exists>g' i'. buildGraph r ids (g, i) = Some (g', i') \<and>
     fst ` set g' = fst ` set g \<and> fst ` set i' = fst ` set i \<and>
     (distinct (map fst i) \<longrightarrow> distinct (map fst i')) \<and>
     (\<forall>c. lookupList g' c = lookupList g c @ filter (\<lambda>t. c \<in> set (lookupList r t)) ids) \<and>
     (\<forall>k. lookup0 i' k = (if k \<in> set ids then lookup0 i k + int (length (lookupList r k)) else lookup0 i k))"
proof (induction ids arbitrary: g i)
  case Nil
  then show ?case by simp
next
  case (Cons t ids)
  have p0: "distinct (lookupList r t)" "set (lookupList r t) \<subseteq> fst ` set g" "t \<in> fst ` set i"
    using Cons.prems by auto
  from addDependents_result[OF p0] obtain g1 i1 where
    r1: "addDependents t (lookupList r t) (g, i) = Some (g1, i1)"
    and k1: "fst ` set g1 = fst ` set g" "fst ` set i1 = fst ` set i"
    and d1: "distinct (map fst i) \<longrightarrow> distinct (map fst i1)"
    and v1: "\<forall>c. lookupList g1 c = (if c \<in> set (lookupList r t) then lookupList g c @ [t] else lookupList g c)"
    and v2: "\<forall>k. lookup0 i1 k = (if k = t then lookup0 i k + int (length (lookupList r t)) else lookup0 i k)"
    by (elim exE conjE) (rule that; assumption)
  have step: "buildGraph r (t # ids) (g, i) = buildGraph r ids (g1, i1)"
    using r1 by (simp add: lookupList_def)
  have p: "distinct ids" "set ids \<subseteq> fst ` set i1"
    "\<forall>t\<in>set ids. distinct (lookupList r t) \<and> set (lookupList r t) \<subseteq> fst ` set g1"
    using Cons.prems k1 by auto
  from Cons.IH[OF p] obtain g' i' where
    r: "buildGraph r ids (g1, i1) = Some (g', i')"
    and k: "fst ` set g' = fst ` set g1" "fst ` set i' = fst ` set i1"
    and d: "distinct (map fst i1) \<longrightarrow> distinct (map fst i')"
    and w1: "\<forall>c. lookupList g' c = lookupList g1 c @ filter (\<lambda>t. c \<in> set (lookupList r t)) ids"
    and w2: "\<forall>k. lookup0 i' k = (if k \<in> set ids then lookup0 i1 k + int (length (lookupList r k)) else lookup0 i1 k)"
    by (elim exE conjE) (rule that; assumption)
  have tn: "t \<notin> set ids" using Cons.prems by simp
  have a1: "fst ` set g' = fst ` set g" "fst ` set i' = fst ` set i" using k k1 by simp_all
  have a2: "distinct (map fst i) \<longrightarrow> distinct (map fst i')" using d d1 by simp
  have a3: "\<forall>c. lookupList g' c = lookupList g c @ filter (\<lambda>t. c \<in> set (lookupList r t)) (t # ids)"
    using w1 v1 by simp
  have a4: "\<forall>k. lookup0 i' k = (if k \<in> set (t # ids) then lookup0 i k + int (length (lookupList r k)) else lookup0 i k)"
    using w2 v2 tn by auto
  show ?case unfolding step r using a1 a2 a3 a4 by (intro exI conjI) (rule refl | assumption)+
qed

lemma zero_queue:
  assumes "distinct (map fst m)"
  shows "distinct (map fst (filter (\<lambda>(i, deg). deg = 0) m))"
    and "set (map fst (filter (\<lambda>(i, deg). deg = (0::int)) m)) = {k \<in> fst ` set m. lookup0 m k = 0}"
proof -
  show "distinct (map fst (filter (\<lambda>(i, deg). deg = 0) m))"
    using assms by (rule distinct_map_filter)
  have "\<And>k v. (k, v) \<in> set m \<Longrightarrow> lookup0 m k = v" using assms by (simp add: lookup0_def)
  then show "set (map fst (filter (\<lambda>(i, deg). deg = (0::int)) m)) = {k \<in> fst ` set m. lookup0 m k = 0}"
    by (auto simp: image_iff)
qed

lemma visitNeighbors_keys:
  "visitNeighbors f ns (q, es, ind) = Some (q', es', ind') \<Longrightarrow> distinct (map fst es) \<Longrightarrow>
   distinct (map fst es')"
proof (induction ns arbitrary: q es ind)
  case Nil
  then show ?case by simp
next
  case (Cons a ns)
  from Cons.prems(1) obtain e d where e: "map_of es a = Some e" and d: "map_of ind a = Some d"
    by (auto split: option.splits)
  have "visitNeighbors f ns (if d - 1 = 0 then q @ [a] else q, AList.update a (max e f) es,
          AList.update a (d - 1) ind) = Some (q', es', ind')"
    using Cons.prems(1) e d by (simp add: Let_def)
  then show ?case by (rule Cons.IH) (simp add: distinct_update Cons.prems(2))
qed

lemma kahnLoop_keys:
  "kahnLoop nbrs dm st = Some st' \<Longrightarrow> distinct (map fst (fst (snd st))) \<Longrightarrow>
   distinct (map fst (fst (snd st')))"
proof (induction nbrs dm st rule: kahnLoop.induct)
  case (1 nbrs duration_m earliestStart indegree)
  then show ?case by auto
next
  case (2 nbrs duration_m current queue earliestStart indegree)
  from "2.prems"(1) obtain e d where e: "map_of earliestStart current = Some e"
    and d: "map_of duration_m current = Some d" by (auto split: option.splits)
  from "2.prems"(1) e d obtain st1 where
    v: "visitNeighbors (e + d) (nbrs current) (queue, earliestStart, indegree) = Some st1"
    and l: "kahnLoop nbrs duration_m st1 = Some st'" by (auto split: option.splits)
  obtain q1 es1 ind1 where st1: "st1 = (q1, es1, ind1)" by (cases st1)
  have "distinct (map fst es1)" using visitNeighbors_keys[OF v[unfolded st1]] "2.prems"(2) by simp
  then show ?case using "2.IH"[OF refl e d v l] st1 by simp
qed

lemma storeMinimumHours_w_result:
  "distinct (map fst es) \<Longrightarrow>
   map fst (storeMinimumHours_w es todos) = map fst todos \<and>
   (\<forall>k. map_of (storeMinimumHours_w es todos) k =
      (case map_of es k of None \<Rightarrow> map_of todos k
       | Some m \<Rightarrow> map_option (\<lambda>t. t\<lparr>minimumHours := m\<rparr>) (map_of todos k)))"
proof (induction es arbitrary: todos)
  case Nil
  then show ?case by simp
next
  case (Cons a es)
  obtain i m where a: "a = (i, m)" by (cases a)
  define todos1 where "todos1 = (case map_of todos i of None \<Rightarrow> todos
      | Some t \<Rightarrow> AList.update i (t\<lparr>minimumHours := m\<rparr>) todos)"
  have step: "storeMinimumHours_w (a # es) todos = storeMinimumHours_w es todos1"
    by (simp add: a todos1_def)
  have d: "distinct (map fst es)" and ni: "i \<notin> fst ` set es" using Cons.prems a by auto
  have k1: "map fst todos1 = map fst todos"
    by (cases "map_of todos i") (simp_all add: todos1_def key_of_Some keys_update_present)
  have m1: "\<And>k. map_of todos1 k = (if k = i then map_option (\<lambda>t. t\<lparr>minimumHours := m\<rparr>) (map_of todos k)
      else map_of todos k)"
    by (cases "map_of todos i") (simp_all add: todos1_def update_conv')
  have none: "map_of es i = None" using ni by (simp add: map_of_eq_None_iff)
  from Cons.IH[OF d, of todos1] have
    ih1: "map fst (storeMinimumHours_w es todos1) = map fst todos1"
    and ih2: "\<And>k. map_of (storeMinimumHours_w es todos1) k =
      (case map_of es k of None \<Rightarrow> map_of todos1 k
       | Some m \<Rightarrow> map_option (\<lambda>t. t\<lparr>minimumHours := m\<rparr>) (map_of todos1 k))"
    by simp_all
  have "\<forall>k. map_of (storeMinimumHours_w (a # es) todos) k =
      (case map_of (a # es) k of None \<Rightarrow> map_of todos k
       | Some m \<Rightarrow> map_option (\<lambda>t. t\<lparr>minimumHours := m\<rparr>) (map_of todos k))"
  proof
    fix k
    show "map_of (storeMinimumHours_w (a # es) todos) k =
      (case map_of (a # es) k of None \<Rightarrow> map_of todos k
       | Some m \<Rightarrow> map_option (\<lambda>t. t\<lparr>minimumHours := m\<rparr>) (map_of todos k))"
    proof (cases "k = i")
      case True
      then show ?thesis unfolding step using ih2[of k] none m1[of k] by (simp add: a)
    next
      case False
      then show ?thesis unfolding step using ih2[of k] m1[of k]
        by (simp add: a split: option.splits)
    qed
  qed
  then show ?case unfolding step using ih1 k1 by simp
qed

lemma forget_simps:
  "rev_adj (forgetWeights s) = rev_adj s" "idToTodo (forgetWeights s) = idToTodo s"
  "safeTargetsCache (forgetWeights s) = safeTargetsCache s"
  "getParentIds (forgetWeights s) = getParentIds s" "allTodoIds (forgetWeights s) = allTodoIds s"
  "durationOf (forgetWeights s) = durationOf s"
  by (simp_all add: forgetWeights_def getParentIds_def allTodoIds_def durationOf_def fun_eq_iff)

lemma map_of_forget:
  "map_of (map (\<lambda>(k, ns). (k, map fst ns)) m) c = map_option (map fst) (map_of m c)"
  by (induction m) auto

lemma children_forget: "getChildrenOf (forgetWeights s) c = getChildrenOf_w s c"
  by (simp add: getChildrenOf_def getChildrenOf_w_def forgetWeights_def map_of_forget split: option.splits)

lemma edges_forget: "edges (forgetWeights s) = edges_w s"
  by (force simp: edges_def edges_w_def forgetWeights_def map_of_forget)

lemma lookupList_rev: "lookupList (rev_adj s) = getParentIds s"
  by (simp add: lookupList_def getParentIds_def fun_eq_iff)

lemma lookupList_nbrs: "(\<lambda>current. case map_of g current of None \<Rightarrow> [] | Some ds \<Rightarrow> ds) = lookupList g"
  by (simp add: lookupList_def fun_eq_iff)

lemma calc_w_run:
  assumes w: "wf_dag_w s"
  shows "\<exists>g0 i0 dm es g ind es' ind'.
    initMaps_w (idToTodo s) (allTodoIds s) ([], [], [], []) = (g0, i0, dm, es) \<and>
    buildGraph (rev_adj s) (allTodoIds s) (g0, i0) = Some (g, ind) \<and>
    kahnLoop (lookupList g) dm (map fst (filter (\<lambda>(i, deg). deg = 0) ind), es, ind) = Some ([], es', ind') \<and>
    (\<forall>n\<in>set (allTodoIds s). lookup0 dm n = durationOf s n) \<and>
    preds (set (allTodoIds s)) (lookupList g) = (\<lambda>n. set (getParentIds s n)) \<and>
    kedges (set (allTodoIds s)) (lookupList g) = edges_w s \<and>
    distinct (map fst es') \<and>
    kahn_inv (set (allTodoIds s)) (lookupList g) dm
       (set (kahnOrder (lookupList g) dm (map fst (filter (\<lambda>(i, deg). deg = 0) ind), es, ind)))
       ([], es', ind') \<and>
    distinct (kahnOrder (lookupList g) dm (map fst (filter (\<lambda>(i, deg). deg = 0) ind), es, ind))"
proof -
  let ?V = "set (allTodoIds s)"
  let ?ids = "allTodoIds s"
  let ?par = "getParentIds s"
  from w have wf: "wf_dag (forgetWeights s)" by (simp add: wf_dag_w_def)
  note W = wf_dagD[OF wf, unfolded forget_simps]
  have dids: "distinct ?ids" using W(3) by (simp add: allTodoIds_def)
  have Vk: "?V = fst ` set (idToTodo s)" by (simp add: allTodoIds_def)
  have parV: "\<And>n. set (?par n) \<subseteq> ?V" using wf_parents_tasks[OF wf] by (simp add: forget_simps)
  have parK: "\<And>p n. p \<in> set (?par n) \<Longrightarrow> n \<in> ?V"
    using parents_key[of _ s] W(7) Vk by auto
  have "\<exists>g0 i0 dm es. initMaps_w (idToTodo s) ?ids ([], [], [], []) = (g0, i0, dm, es) \<and>
     fst ` set g0 = ?V \<and> fst ` set i0 = ?V \<and> fst ` set dm = ?V \<and> fst ` set es = ?V \<and>
     distinct (map fst i0) \<and> distinct (map fst es) \<and>
     (\<forall>k. lookupList g0 k = []) \<and> (\<forall>k\<in>?V. lookup0 i0 k = 0) \<and> (\<forall>k\<in>?V. lookup0 es k = 0) \<and>
     (\<forall>k\<in>?V. lookup0 dm k = durationOf s k)"
    using initMaps_w_result[of "idToTodo s" ?ids "[]" "[]" "[]" "[]"]
    by (auto simp: lookupList_def durationOf_def)
  then obtain g0 i0 dm es where
    im: "initMaps_w (idToTodo s) ?ids ([], [], [], []) = (g0, i0, dm, es)"
    and kg0: "fst ` set g0 = ?V" and ki0: "fst ` set i0 = ?V" and kdm: "fst ` set dm = ?V"
    and kes: "fst ` set es = ?V" and di0: "distinct (map fst i0)" and des: "distinct (map fst es)"
    and vg0: "\<forall>k. lookupList g0 k = []" and vi0: "\<forall>k\<in>?V. lookup0 i0 k = 0"
    and ves: "\<forall>k\<in>?V. lookup0 es k = 0" and vdm: "\<forall>k\<in>?V. lookup0 dm k = durationOf s k"
    by (elim exE conjE) (rule that; assumption)
  have pb: "\<forall>t\<in>set ?ids. distinct (lookupList (rev_adj s) t) \<and> set (lookupList (rev_adj s) t) \<subseteq> fst ` set g0"
    using W(5) parV kg0 by (simp add: lookupList_rev)
  have si: "set ?ids \<subseteq> fst ` set i0" using ki0 by simp
  have "\<exists>g ind. buildGraph (rev_adj s) ?ids (g0, i0) = Some (g, ind) \<and>
     fst ` set ind = ?V \<and> distinct (map fst ind) \<and>
     (\<forall>c. lookupList g c = filter (\<lambda>t. c \<in> set (?par t)) ?ids) \<and>
     (\<forall>k\<in>?V. lookup0 ind k = int (length (?par k)))"
    using buildGraph_result[OF dids si pb] vg0 vi0 ki0 di0 by (auto simp: lookupList_rev)
  then obtain g ind where
    bg: "buildGraph (rev_adj s) ?ids (g0, i0) = Some (g, ind)"
    and kind: "fst ` set ind = ?V" and dind: "distinct (map fst ind)"
    and vg: "\<forall>c. lookupList g c = filter (\<lambda>t. c \<in> set (?par t)) ?ids"
    and vind: "\<forall>k\<in>?V. lookup0 ind k = int (length (?par k))"
    by (elim exE conjE) (rule that; assumption)
  let ?nb = "lookupList g"
  let ?q = "map fst (filter (\<lambda>(i, deg). deg = 0) ind)"
  have G: "kahn_graph ?V ?nb dm"
    unfolding kahn_graph_def using dids vg kdm by auto
  have P: "preds ?V ?nb = (\<lambda>n. set (?par n))"
  proof (rule ext)
    fix n show "preds ?V ?nb n = set (?par n)"
      using vg parV[of n] parK[of _ n] by (auto simp: preds_def)
  qed
  have E: "kedges ?V ?nb = edges_w s"
  proof -
    have "kedges ?V ?nb = {(p, n). p \<in> set (?par n)}"
      using vg parV parK by (auto simp: kedges_def)
    also have "\<dots> = edges (forgetWeights s)"
      using wf_mirror[OF wf] by (simp add: edges_children forget_simps)
    finally show ?thesis by (simp add: edges_forget)
  qed
  have card: "\<And>n. card (set (?par n)) = length (?par n)" using W(5) by (simp add: distinct_card)
  have I0: "kahn_inv ?V ?nb dm {} (?q, es, ind)"
  proof (rule kahn_init)
    show "finite ?V" by simp
    show "distinct ?q" using dind by (rule zero_queue)
    show "set ?q = {n \<in> ?V. preds ?V ?nb n = {}}"
      using zero_queue(2)[OF dind] kind vind P by auto
    show "fst ` set es = ?V" by (rule kes)
    show "fst ` set ind = ?V" by (rule kind)
    show "\<forall>n\<in>?V. lookup0 es n = 0" by (rule ves)
    show "\<forall>n\<in>?V. lookup0 ind n = int (card (preds ?V ?nb n))" using vind P card by simp
  qed
  from kahn_run[OF G I0] obtain es' ind' where
    kl: "kahnLoop ?nb dm (?q, es, ind) = Some ([], es', ind')"
    and inv: "kahn_inv ?V ?nb dm ({} \<union> set (kahnOrder ?nb dm (?q, es, ind))) ([], es', ind')"
    and dist: "distinct (kahnOrder ?nb dm (?q, es, ind))"
    by (elim exE conjE) (rule that; assumption)
  have des': "distinct (map fst es')" using kahnLoop_keys[OF kl] des by simp
  show ?thesis using im bg kl vdm P E des' inv dist by (intro exI conjI) (assumption | simp)+
qed

section \<open>Correct schedules\<close>

lemma scheduleCorrect_from_max:
  assumes wfE: "wf E"
    and ed: "\<And>p n. p \<in> set (parents n) \<Longrightarrow> (p, n) \<in> E"
    and pv: "\<And>n. set (parents n) \<subseteq> V"
    and DV: "D \<subseteq> V"
    and cl: "\<forall>n\<in>V. (n \<in> D) = (set (parents n) \<subseteq> D)"
    and mx: "\<forall>n\<in>V. start n = Max (insert 0 ((\<lambda>p. start p + dur p) ` (set (parents n) \<inter> D)))"
    and nn: "\<forall>n. 0 \<le> dur n"
  shows "D = V \<and> scheduleCorrect V parents dur start"
proof -
  have in_D: "\<And>n. n \<in> V \<Longrightarrow> n \<in> D"
  proof -
    fix n show "n \<in> V \<Longrightarrow> n \<in> D" using wfE
    proof (induction n rule: wf_induct_rule)
      case (less x)
      have "set (parents x) \<subseteq> D"
      proof
        fix p assume p: "p \<in> set (parents x)"
        then show "p \<in> D" using less.IH[of p] ed pv by auto
      qed
      then show ?case using cl less.prems by simp
    qed
  qed
  then have all: "D = V" using DV by auto
  let ?F = "\<lambda>n. (\<lambda>p. start p + dur p) ` set (parents n)"
  have mx': "\<And>n. n \<in> V \<Longrightarrow> start n = Max (insert 0 (?F n))"
  proof -
    fix n assume n: "n \<in> V"
    have "set (parents n) \<inter> D = set (parents n)" using all pv[of n] by auto
    then show "start n = Max (insert 0 (?F n))" using mx n by simp
  qed
  have pos: "\<And>n. n \<in> V \<Longrightarrow> 0 \<le> start n" using mx' by (simp add: Max_ge_iff)
  have a1: "\<forall>d\<in>V. \<forall>p\<in>set (parents d). start p + dur p \<le> start d"
  proof (intro ballI)
    fix d p assume d: "d \<in> V" and p: "p \<in> set (parents d)"
    have "start p + dur p \<in> insert 0 (?F d)" using p by simp
    then have "start p + dur p \<le> Max (insert 0 (?F d))" by (intro Max_ge) auto
    then show "start p + dur p \<le> start d" using mx'[OF d] by simp
  qed
  have a2: "\<forall>n\<in>V. parents n = [] \<longrightarrow> start n = 0" using mx' by simp
  have a3: "\<forall>n\<in>V. parents n \<noteq> [] \<longrightarrow> (\<exists>p\<in>set (parents n). start n = start p + dur p)"
  proof (intro ballI impI)
    fix n assume n: "n \<in> V" and ne: "parents n \<noteq> []"
    have fin: "finite (?F n)" and nonempty: "?F n \<noteq> {}" using ne by auto
    have "\<forall>x\<in>?F n. 0 \<le> x" using pos nn pv[of n] by (auto intro!: add_nonneg_nonneg)
    then have "0 \<le> Max (?F n)" using fin nonempty by (meson Max_in)
    then have "Max (insert 0 (?F n)) = Max (?F n)" using fin nonempty by simp
    moreover have "Max (?F n) \<in> ?F n" using fin nonempty by (rule Max_in)
    ultimately show "\<exists>p\<in>set (parents n). start n = start p + dur p" using mx'[OF n] by auto
  qed
  show ?thesis using all a1 a2 a3 unfolding scheduleCorrect_def by blast
qed

lemma schedule_correct:
  assumes w: "wf_dag s" and ac: "acyclic (edges s)" and nn: "\<forall>n. 0 \<le> durationOf s n"
  shows "\<exists>s'. calculateEarliestStartTimes s = Some s' \<and>
     set (processedTasks s) = set (allTodoIds s) \<and>
     scheduleCorrect (set (allTodoIds s)) (getParentIds s) (durationOf s') (startOf s')"
proof -
  let ?V = "set (allTodoIds s)"
  let ?D = "set (processedTasks s)"
  from calc_correct[OF w] obtain s' where
    calc: "calculateEarliestStartTimes s = Some s'"
    and mo: "\<forall>k. map_of (idToTodo s') k =
        map_option (\<lambda>t. t\<lparr>minimumHours := startOf s' k\<rparr>) (map_of (idToTodo s) k)"
    and DV: "?D \<subseteq> ?V"
    and cl: "\<forall>n\<in>?V. (n \<in> ?D) = (set (getParentIds s n) \<subseteq> ?D)"
    and mx: "\<forall>n\<in>?V. startOf s' n =
        Max (insert 0 ((\<lambda>p. startOf s' p + durationOf s p) ` (set (getParentIds s n) \<inter> ?D)))"
    by (elim exE conjE) (rule that; assumption)
  have ed: "\<And>p n. p \<in> set (getParentIds s n) \<Longrightarrow> (p, n) \<in> edges s"
    using wf_mirror[OF w] by (simp add: edges_children)
  have wfE: "wf (edges s)" using finite_edges ac by (rule finite_acyclic_wf)
  have dur: "durationOf s' = durationOf s" using durationOf_calc[OF mo] by (rule ext)
  show ?thesis
    using scheduleCorrect_from_max[OF wfE ed wf_parents_tasks[OF w] DV cl mx nn] calc dur by simp
qed

lemma calc_w_correct:
  assumes w: "wf_dag_w s"
  shows "\<exists>s'. calculateEarliestStartTimes_w s = Some s' \<and>
     adj s' = adj s \<and> rev_adj s' = rev_adj s \<and> safeTargetsCache s' = safeTargetsCache s \<and>
     map fst (idToTodo s') = map fst (idToTodo s) \<and>
     (\<forall>k. map_of (idToTodo s') k =
        map_option (\<lambda>t. t\<lparr>minimumHours := startOf s' k\<rparr>) (map_of (idToTodo s) k)) \<and>
     distinct (processedTasks_w s) \<and> set (processedTasks_w s) \<subseteq> set (allTodoIds s) \<and>
     (\<forall>n\<in>set (allTodoIds s).
        (n \<in> set (processedTasks_w s)) = (set (getParentIds s n) \<subseteq> set (processedTasks_w s))) \<and>
     (\<forall>n\<in>set (allTodoIds s). startOf s' n =
        Max (insert 0 ((\<lambda>p. startOf s' p + durationOf s p) `
               (set (getParentIds s n) \<inter> set (processedTasks_w s))))) \<and>
     (\<forall>n\<in>set (processedTasks_w s). \<forall>c. (c, n) \<in> (edges_w s)\<^sup>* \<longrightarrow> (c, c) \<notin> (edges_w s)\<^sup>+)"
proof -
  let ?V = "set (allTodoIds s)"
  from calc_w_run[OF w] obtain g0 i0 dm es g ind es' ind' where
    im: "initMaps_w (idToTodo s) (allTodoIds s) ([], [], [], []) = (g0, i0, dm, es)"
    and bg: "buildGraph (rev_adj s) (allTodoIds s) (g0, i0) = Some (g, ind)"
    and kl: "kahnLoop (lookupList g) dm (map fst (filter (\<lambda>(i, deg). deg = 0) ind), es, ind) = Some ([], es', ind')"
    and dv: "\<forall>n\<in>?V. lookup0 dm n = durationOf s n"
    and P: "preds ?V (lookupList g) = (\<lambda>n. set (getParentIds s n))"
    and E: "kedges ?V (lookupList g) = edges_w s"
    and des: "distinct (map fst es')"
    and inv: "kahn_inv ?V (lookupList g) dm
       (set (kahnOrder (lookupList g) dm (map fst (filter (\<lambda>(i, deg). deg = 0) ind), es, ind)))
       ([], es', ind')"
    and dist: "distinct (kahnOrder (lookupList g) dm (map fst (filter (\<lambda>(i, deg). deg = 0) ind), es, ind))"
    by (elim exE conjE) (rule that; assumption)
  define s' where "s' = s\<lparr>idToTodo := storeMinimumHours_w es' (idToTodo s)\<rparr>"
  have calc: "calculateEarliestStartTimes_w s = Some s'"
    by (simp add: calculateEarliestStartTimes_w_def lookupList_nbrs im bg kl s'_def)
  have proc: "processedTasks_w s = kahnOrder (lookupList g) dm (map fst (filter (\<lambda>(i, deg). deg = 0) ind), es, ind)"
    by (simp add: processedTasks_w_def lookupList_nbrs im bg)
  from w have wf: "wf_dag (forgetWeights s)" by (simp add: wf_dag_w_def)
  have tk: "\<And>k t. map_of (idToTodo s) k = Some t \<Longrightarrow> todo_id t = k"
    using wf_todo_key[OF wf] by (simp add: forget_simps)
  from inv have kes: "fst ` set es' = ?V" by (simp add: kahn_inv_def)
  have keys: "map fst (idToTodo s') = map fst (idToTodo s)"
    using storeMinimumHours_w_result[OF des, of "idToTodo s"] by (simp add: s'_def)
  have mo: "\<And>k. map_of (idToTodo s') k =
      map_option (\<lambda>t. t\<lparr>minimumHours := lookup0 es' k\<rparr>) (map_of (idToTodo s) k)"
  proof -
    fix k
    have r: "map_of (idToTodo s') k = (case map_of es' k of None \<Rightarrow> map_of (idToTodo s) k
       | Some m \<Rightarrow> map_option (\<lambda>t. t\<lparr>minimumHours := m\<rparr>) (map_of (idToTodo s) k))"
      using storeMinimumHours_w_result[OF des, of "idToTodo s"] by (simp add: s'_def)
    show "map_of (idToTodo s') k =
      map_option (\<lambda>t. t\<lparr>minimumHours := lookup0 es' k\<rparr>) (map_of (idToTodo s) k)"
    proof (cases "map_of es' k")
      case None
      then have "k \<notin> ?V" using kes by (simp add: map_of_eq_None_iff)
      then have "map_of (idToTodo s) k = None" by (simp add: allTodoIds_def map_of_eq_None_iff)
      then show ?thesis using r None by simp
    next
      case (Some m)
      then show ?thesis using r by (simp add: lookup0_def)
    qed
  qed
  have st: "\<And>n. n \<in> ?V \<Longrightarrow> startOf s' n = lookup0 es' n"
  proof -
    fix n assume "n \<in> ?V"
    then obtain t where t: "map_of (idToTodo s) n = Some t"
      using map_of_eq_None_iff[of "idToTodo s" n] by (auto simp: allTodoIds_def)
    then show "startOf s' n = lookup0 es' n" using mo[of n] by (simp add: startOf_def)
  qed
  have mo': "\<forall>k. map_of (idToTodo s') k =
      map_option (\<lambda>t. t\<lparr>minimumHours := startOf s' k\<rparr>) (map_of (idToTodo s) k)"
  proof
    fix k
    show "map_of (idToTodo s') k = map_option (\<lambda>t. t\<lparr>minimumHours := startOf s' k\<rparr>) (map_of (idToTodo s) k)"
    proof (cases "map_of (idToTodo s) k")
      case None
      then show ?thesis using mo[of k] by simp
    next
      case (Some t)
      then show ?thesis using mo[of k] by (simp add: startOf_def)
    qed
  qed
  from inv have DV: "set (processedTasks_w s) \<subseteq> ?V"
    and id: "\<forall>n\<in>?V. (n \<in> set (processedTasks_w s)) = (set (getParentIds s n) \<subseteq> set (processedTasks_w s))"
    and ie: "\<forall>n\<in>?V. lookup0 es' n =
        Max (insert 0 (finish es' dm ` (set (getParentIds s n) \<inter> set (processedTasks_w s))))"
    and icy: "\<forall>n\<in>set (processedTasks_w s). \<forall>c. (c, n) \<in> (edges_w s)\<^sup>* \<longrightarrow> (c, c) \<notin> (edges_w s)\<^sup>+"
    unfolding kahn_inv_def proc[symmetric] P E by auto
  have fin: "\<And>p. p \<in> ?V \<Longrightarrow> finish es' dm p = startOf s' p + durationOf s p"
    using st dv by (simp add: finish_def)
  have ie': "\<forall>n\<in>?V. startOf s' n =
        Max (insert 0 ((\<lambda>p. startOf s' p + durationOf s p) `
               (set (getParentIds s n) \<inter> set (processedTasks_w s))))"
  proof
    fix n assume n: "n \<in> ?V"
    have "finish es' dm ` (set (getParentIds s n) \<inter> set (processedTasks_w s))
        = (\<lambda>p. startOf s' p + durationOf s p) ` (set (getParentIds s n) \<inter> set (processedTasks_w s))"
      using fin DV by (intro image_cong) auto
    then show "startOf s' n = Max (insert 0 ((\<lambda>p. startOf s' p + durationOf s p) `
               (set (getParentIds s n) \<inter> set (processedTasks_w s))))"
      using ie n st by simp
  qed
  have "adj s' = adj s" "rev_adj s' = rev_adj s" "safeTargetsCache s' = safeTargetsCache s"
    by (simp_all add: s'_def)
  then show ?thesis using calc keys mo' dist proc DV id ie' icy by auto
qed

lemma schedule_correct_w:
  assumes w: "wf_dag_w s" and ac: "acyclic (edges_w s)" and nn: "\<forall>n. 0 \<le> durationOf s n"
  shows "\<exists>s'. calculateEarliestStartTimes_w s = Some s' \<and>
     set (processedTasks_w s) = set (allTodoIds s) \<and>
     scheduleCorrect (set (allTodoIds s)) (getParentIds s) (durationOf s') (startOf s')"
proof -
  let ?V = "set (allTodoIds s)"
  let ?D = "set (processedTasks_w s)"
  from w have wf: "wf_dag (forgetWeights s)" by (simp add: wf_dag_w_def)
  from calc_w_correct[OF w] obtain s' where
    calc: "calculateEarliestStartTimes_w s = Some s'"
    and mo: "\<forall>k. map_of (idToTodo s') k =
        map_option (\<lambda>t. t\<lparr>minimumHours := startOf s' k\<rparr>) (map_of (idToTodo s) k)"
    and DV: "?D \<subseteq> ?V"
    and cl: "\<forall>n\<in>?V. (n \<in> ?D) = (set (getParentIds s n) \<subseteq> ?D)"
    and mx: "\<forall>n\<in>?V. startOf s' n =
        Max (insert 0 ((\<lambda>p. startOf s' p + durationOf s p) ` (set (getParentIds s n) \<inter> ?D)))"
    by (elim exE conjE) (rule that; assumption)
  have ed: "\<And>p n. p \<in> set (getParentIds s n) \<Longrightarrow> (p, n) \<in> edges_w s"
    using wf_mirror[OF wf] by (simp add: edges_children forget_simps flip: edges_forget)
  have "finite (edges_w s)" using finite_edges[of "forgetWeights s"] by (simp add: edges_forget)
  then have wfE: "wf (edges_w s)" using ac by (rule finite_acyclic_wf)
  have pv: "\<And>n. set (getParentIds s n) \<subseteq> ?V" using wf_parents_tasks[OF wf] by (simp add: forget_simps)
  have dur: "durationOf s' = durationOf s" using durationOf_calc[OF mo] by (rule ext)
  show ?thesis
    using scheduleCorrect_from_max[OF wfE ed pv DV cl mx nn] calc dur by simp
qed

lemma acyclic_increasing:
  assumes "\<And>p d. (p, d) \<in> r \<Longrightarrow> p < (d::int)"
  shows "acyclic r"
  by (rule acyclicI_order[where f = uminus]) (simp add: assms)

section \<open>The join and the loop scenario\<close>

lemma join_eval:
  "calculateEarliestStartTimes joinState =
     Some (joinState\<lparr>idToTodo := [(1, task 1 2), (2, task 2 3), (3, (task 3 4)\<lparr>minimumHours := 3\<rparr>)]\<rparr>)"
  by (simp add: eval_defs joinState_def)

lemma join_w_eval:
  "calculateEarliestStartTimes_w joinState_w =
     Some (joinState_w\<lparr>idToTodo := [(1, task 1 2), (2, task 2 3), (3, (task 3 4)\<lparr>minimumHours := 3\<rparr>)]\<rparr>)"
  by (simp add: eval_defs_w joinState_w_def)

lemma wf_joinState: "wf_dag joinState"
  by (simp add: wf_eval joinState_def)

lemma wf_joinState_w: "wf_dag_w joinState_w"
  by (simp add: wf_eval joinState_w_def)

lemma acyclic_joinState: "acyclic (edges joinState)"
  by (rule acyclic_increasing) (auto simp: edges_def joinState_def split: if_splits)

lemma acyclic_joinState_w: "acyclic (edges_w joinState_w)"
  by (rule acyclic_increasing) (auto simp: edges_w_def joinState_w_def split: if_splits)

lemma durations_joinState: "\<forall>n. 0 \<le> durationOf joinState n"
  by (simp add: durationOf_def joinState_def task_def)

lemma durations_joinState_w: "\<forall>n. 0 \<le> durationOf joinState_w n"
  by (simp add: durationOf_def joinState_w_def task_def)

lemma wf_loopState: "wf_dag loopState"
  by (simp add: wf_eval loopState_def)

lemma wf_loopState_w: "wf_dag_w loopState_w"
  by (simp add: wf_eval loopState_w_def)

lemma loop_eval:
  "calculateEarliestStartTimes loopState =
     Some (loopState\<lparr>idToTodo := [(1, task 1 3), (2, (task 2 5)\<lparr>minimumHours := 3\<rparr>), (3, task 3 1)]\<rparr>)"
  by (simp add: eval_defs loopState_def)

lemma loop_w_eval:
  "calculateEarliestStartTimes_w loopState_w =
     Some (loopState_w\<lparr>idToTodo := [(1, task 1 3), (2, (task 2 5)\<lparr>minimumHours := 3\<rparr>), (3, task 3 1)]\<rparr>)"
  by (simp add: eval_defs_w loopState_w_def)

lemma loop_processed: "processedTasks loopState = [1]" "processedTasks_w loopState_w = [1]"
  by (simp_all add: processedTasks_def processedTasks_w_def loopState_def loopState_w_def
        rootNodes_def allTodoIds_def task_def)

lemma processed_bound:
  assumes "distinct ps" and "set ps \<subseteq> set (allTodoIds s)"
  shows "length ps \<le> numTodos s"
proof -
  have "length ps = card (set ps)" using assms(1) by (simp add: distinct_card)
  also have "\<dots> \<le> card (set (allTodoIds s))" using assms(2) by (simp add: card_mono)
  also have "\<dots> \<le> length (allTodoIds s)" by (rule card_length)
  finally show ?thesis by (simp add: numTodos_def allTodoIds_def)
qed

section \<open>The searches for safe targets\<close>

lemma ancestorsLoop_sound:
  "set (ancestorsLoop s stack anc) \<subseteq> set anc \<union> (parentRel s)\<^sup>* `` set stack"
proof (induction s stack anc rule: ancestorsLoop.induct)
  case (1 s ancestors)
  then show ?case by simp
next
  case (2 s node stack ancestors)
  show ?case
  proof (cases "node \<in> set ancestors")
    case True
    then show ?thesis using "2.IH"(1) by auto
  next
    case False
    have "(parentRel s)\<^sup>* `` set (rev (getParentIds s node) @ stack)
        \<subseteq> (parentRel s)\<^sup>* `` set (node # stack)"
    proof
      fix a assume "a \<in> (parentRel s)\<^sup>* `` set (rev (getParentIds s node) @ stack)"
      then obtain x where x: "x \<in> set (getParentIds s node) \<union> set stack" "(x, a) \<in> (parentRel s)\<^sup>*"
        by auto
      show "a \<in> (parentRel s)\<^sup>* `` set (node # stack)"
      proof (cases "x \<in> set stack")
        case True
        then show ?thesis using x by auto
      next
        case False
        then have "(node, x) \<in> parentRel s" using x by (simp add: parentRel_def)
        then have "(node, a) \<in> (parentRel s)\<^sup>*" using x(2) by (rule converse_rtrancl_into_rtrancl)
        then show ?thesis by auto
      qed
    qed
    moreover have "node \<in> (parentRel s)\<^sup>* `` set (node # stack)" by auto
    ultimately show ?thesis using "2.IH"(2)[OF False] False by (simp add: subset_iff) blast
  qed
qed

lemma ancestorsLoop_closed:
  "\<forall>n\<in>set anc. set (getParentIds s n) \<subseteq> set anc \<union> set stack \<Longrightarrow>
   set anc \<union> set stack \<subseteq> set (ancestorsLoop s stack anc) \<and>
   (\<forall>n\<in>set (ancestorsLoop s stack anc). set (getParentIds s n) \<subseteq> set (ancestorsLoop s stack anc))"
proof (induction s stack anc rule: ancestorsLoop.induct)
  case (1 s ancestors)
  then show ?case by simp
next
  case (2 s node stack ancestors)
  show ?case
  proof (cases "node \<in> set ancestors")
    case True
    have "\<forall>n\<in>set ancestors. set (getParentIds s n) \<subseteq> set ancestors \<union> set stack"
      using "2.prems" True by auto
    from "2.IH"(1)[OF True this] show ?thesis using True by auto
  next
    case False
    have "\<forall>n\<in>set (ancestors @ [node]). set (getParentIds s n)
        \<subseteq> set (ancestors @ [node]) \<union> set (rev (getParentIds s node) @ stack)"
      using "2.prems" by auto
    from "2.IH"(2)[OF False this] show ?thesis using False by auto
  qed
qed

lemma closed_rtrancl:
  assumes "\<forall>n\<in>C. \<forall>m. (n, m) \<in> R \<longrightarrow> m \<in> C" and "x \<in> C" and "(x, a) \<in> R\<^sup>*"
  shows "a \<in> C"
  using assms(3,1,2) by (induction rule: rtrancl_induct) auto

lemma ancestorsLoop_from: "set (ancestorsLoop s [from] []) = (parentRel s)\<^sup>* `` {from}"
proof
  show "set (ancestorsLoop s [from] []) \<subseteq> (parentRel s)\<^sup>* `` {from}"
    using ancestorsLoop_sound[of s "[from]" "[]"] by simp
  have c: "set [] \<union> set [from] \<subseteq> set (ancestorsLoop s [from] []) \<and>
    (\<forall>n\<in>set (ancestorsLoop s [from] []). set (getParentIds s n) \<subseteq> set (ancestorsLoop s [from] []))"
    by (rule ancestorsLoop_closed) simp
  then have cl: "\<forall>n\<in>set (ancestorsLoop s [from] []). \<forall>m. (n, m) \<in> parentRel s \<longrightarrow>
      m \<in> set (ancestorsLoop s [from] [])"
    by (auto simp: parentRel_def)
  show "(parentRel s)\<^sup>* `` {from} \<subseteq> set (ancestorsLoop s [from] [])"
  proof
    fix a assume "a \<in> (parentRel s)\<^sup>* `` {from}"
    then have "(from, a) \<in> (parentRel s)\<^sup>*" by simp
    moreover have "from \<in> set (ancestorsLoop s [from] [])" using c by simp
    ultimately show "a \<in> set (ancestorsLoop s [from] [])" using closed_rtrancl[OF cl] by blast
  qed
qed

lemma reachableLoop_sound:
  "reachableLoop s target stack visited \<Longrightarrow> \<exists>x\<in>set stack. (x, target) \<in> (childRel s)\<^sup>*"
proof (induction s target stack visited rule: reachableLoop.induct)
  case (1 s target visited)
  then show ?case by simp
next
  case (2 s target node stack visited)
  show ?case
  proof (cases "node = target")
    case True
    then show ?thesis by auto
  next
    case nt: False
    show ?thesis
    proof (cases "node \<in> set visited")
      case True
      then have "reachableLoop s target stack visited" using "2.prems" nt by simp
      from "2.IH"(1)[OF nt True this] show ?thesis by auto
    next
      case False
      then have "reachableLoop s target (rev (getChildrenOf_w s node) @ stack) (visited @ [node])"
        using "2.prems" nt by simp
      from "2.IH"(2)[OF nt False this] obtain x where
        x: "x \<in> set (getChildrenOf_w s node) \<union> set stack" "(x, target) \<in> (childRel s)\<^sup>*" by auto
      show ?thesis
      proof (cases "x \<in> set stack")
        case True
        then show ?thesis using x by auto
      next
        case False
        then have "(node, x) \<in> childRel s" using x by (simp add: childRel_def)
        then have "(node, target) \<in> (childRel s)\<^sup>*" using x(2) by (rule converse_rtrancl_into_rtrancl)
        then show ?thesis by auto
      qed
    qed
  qed
qed

lemma reachableLoop_complete:
  "\<not> reachableLoop s target stack visited \<Longrightarrow> target \<notin> set visited \<Longrightarrow>
   \<forall>v\<in>set visited. set (getChildrenOf_w s v) \<subseteq> set visited \<union> set stack \<Longrightarrow>
   \<exists>C. set visited \<union> set stack \<subseteq> C \<and> target \<notin> C \<and> (\<forall>v\<in>C. set (getChildrenOf_w s v) \<subseteq> C)"
proof (induction s target stack visited rule: reachableLoop.induct)
  case (1 s target visited)
  show ?case
    by (rule exI[of _ "set visited"]) (use "1.prems" in auto)
next
  case (2 s target node stack visited)
  have nt: "node \<noteq> target" using "2.prems"(1) by auto
  show ?case
  proof (cases "node \<in> set visited")
    case True
    have a: "\<not> reachableLoop s target stack visited" using "2.prems"(1) nt True by simp
    have b: "\<forall>v\<in>set visited. set (getChildrenOf_w s v) \<subseteq> set visited \<union> set stack"
      using "2.prems"(3) True by auto
    from "2.IH"(1)[OF nt True a "2.prems"(2) b] obtain C where
      "set visited \<union> set stack \<subseteq> C" "target \<notin> C" "\<forall>v\<in>C. set (getChildrenOf_w s v) \<subseteq> C"
      by blast
    then show ?thesis using True by (intro exI[of _ C]) auto
  next
    case False
    have a: "\<not> reachableLoop s target (rev (getChildrenOf_w s node) @ stack) (visited @ [node])"
      using "2.prems"(1) nt False by simp
    have b: "target \<notin> set (visited @ [node])" using "2.prems"(2) nt by simp
    have c: "\<forall>v\<in>set (visited @ [node]). set (getChildrenOf_w s v)
        \<subseteq> set (visited @ [node]) \<union> set (rev (getChildrenOf_w s node) @ stack)"
      using "2.prems"(3) by auto
    from "2.IH"(2)[OF nt False a b c] obtain C where
      "set (visited @ [node]) \<union> set (rev (getChildrenOf_w s node) @ stack) \<subseteq> C"
      "target \<notin> C" "\<forall>v\<in>C. set (getChildrenOf_w s v) \<subseteq> C"
      by blast
    then show ?thesis by (intro exI[of _ C]) auto
  qed
qed

lemma isReachable_iff: "isReachable s start target \<longleftrightarrow> (start, target) \<in> (childRel s)\<^sup>*"
proof
  assume "isReachable s start target"
  then show "(start, target) \<in> (childRel s)\<^sup>*"
    using reachableLoop_sound[of s target "[start]" "[]"] by (simp add: isReachable_def)
next
  assume r: "(start, target) \<in> (childRel s)\<^sup>*"
  show "isReachable s start target"
  proof (rule ccontr)
    assume "\<not> isReachable s start target"
    then have "\<not> reachableLoop s target [start] []" by (simp add: isReachable_def)
    from reachableLoop_complete[OF this] obtain C where
      C: "start \<in> C" "target \<notin> C" "\<forall>v\<in>C. set (getChildrenOf_w s v) \<subseteq> C" by auto
    have "\<forall>n\<in>C. \<forall>m. (n, m) \<in> childRel s \<longrightarrow> m \<in> C" using C(3) by (auto simp: childRel_def)
    from closed_rtrancl[OF this C(1) r] show False using C(2) by simp
  qed
qed

lemma wf_parentRel: "wf_dag s \<Longrightarrow> parentRel s = (edges s)\<inverse>"
  using wf_mirror[of s] by (auto simp: parentRel_def edges_children)

lemma children_w_iff:
  "c \<in> set (getChildrenOf_w s n) \<longleftrightarrow> (\<exists>ns. map_of (adj s) n = Some ns \<and> c \<in> fst ` set ns)"
  by (cases "map_of (adj s) n") (simp_all add: getChildrenOf_w_def)

lemma childRel_edges: "childRel s = edges_w s"
  by (simp add: childRel_def edges_w_def children_w_iff)

lemma safe_targets_miss:
  assumes w: "wf_dag s" and m: "map_of (safeTargetsCache s) p = None"
  shows "set (fst (getSafeTargets s p)) = safeTargetsSpec (set (allTodoIds s)) (edges s) p"
proof -
  have r: "fst (getSafeTargets s p)
      = filter (\<lambda>i. i \<notin> set (ancestorsLoop s [p] [])) (allTodoIds s)"
    using m by (simp add: getSafeTargets_def Let_def)
  have a: "\<And>d. d \<in> set (ancestorsLoop s [p] []) \<longleftrightarrow> (d, p) \<in> (edges s)\<^sup>*"
    unfolding ancestorsLoop_from wf_parentRel[OF w] rtrancl_converse by simp
  show ?thesis unfolding r safeTargetsSpec_def using a by auto
qed

lemma keys_forget: "map fst (adj (forgetWeights s)) = map fst (adj s)"
  by (simp add: forgetWeights_def case_prod_beta comp_def)

lemma safe_targets_w_miss:
  assumes w: "wf_dag_w s" and m: "map_of (safeTargetsCache s) p = None"
  shows "set (fst (getSafeTargets_w s p)) = safeTargetsSpec (set (allTodoIds s)) (edges_w s) p"
proof -
  from w have wf: "wf_dag (forgetWeights s)" by (simp add: wf_dag_w_def)
  have r: "fst (getSafeTargets_w s p)
      = filter (\<lambda>candidate. candidate \<noteq> p \<and> \<not> isReachable s candidate p) (map fst (adj s))"
    using m by (simp add: getSafeTargets_w_def Let_def)
  have "fst ` set (adj (forgetWeights s)) = fst ` set (idToTodo (forgetWeights s))"
    using wf by (rule wf_dagD)
  then have k: "set (map fst (adj s)) = set (allTodoIds s)"
    using arg_cong[OF keys_forget[of s], of set] by (simp add: forget_simps allTodoIds_def)
  show ?thesis unfolding r safeTargetsSpec_def using k
    by (auto simp: isReachable_iff childRel_edges)
qed

lemma stale_eval: "staleScenario = Some ([], staleState)"
  by (simp add: staleScenario_def eval_defs getSafeTargets_def allTodoIds_def getParentIds_def
      staleState_def)

lemma stale_w_eval: "staleScenario_w = Some ([], staleState_w)"
  by (simp add: staleScenario_w_def eval_defs_w getSafeTargets_w_def isReachable_def
      staleState_w_def)

lemma safe_targets_join_eval:
  "fst (getSafeTargets (forgetWeights joinState_w) 1) = [2, 3]"
  "fst (getSafeTargets_w joinState_w 1) = [2, 3]"
  "fst (getSafeTargets (forgetWeights joinState_w) 3) = []"
  "fst (getSafeTargets_w joinState_w 3) = []"
  by (simp_all add: getSafeTargets_def getSafeTargets_w_def isReachable_def forgetWeights_def
      joinState_w_def allTodoIds_def getParentIds_def getChildrenOf_w_def Let_def)

section \<open>The critical-path search\<close>

lemma memo_ok_update: "memo_ok entries memo \<Longrightarrow> good entries n r \<Longrightarrow> memo_ok entries (AList.update n r memo)"
  unfolding memo_ok_def update_conv' by (metis fun_upd_apply option.inject)

lemma tryNeighbors_solvable:
  "\<forall>(c, ew)\<in>set l. solvable entries c \<Longrightarrow>
   \<exists>N. \<forall>depth\<ge>N. \<forall>memo acc B. memo_ok entries memo \<and> acc_ok entries B acc \<longrightarrow>
     (\<exists>acc' memo'. tryNeighbors depth entries memo l acc = Some (acc', memo') \<and>
        memo_ok entries memo' \<and> acc_ok entries (B \<union> set l) acc')"
proof (induction l)
  case Nil
  then show ?case by auto
next
  case (Cons a l)
  obtain c ew where a: "a = (c, ew)" by (cases a)
  from Cons.prems a have "solvable entries c" by simp
  then obtain N1 where N1: "\<And>depth memo. depth \<ge> N1 \<Longrightarrow> memo_ok entries memo \<Longrightarrow>
        \<exists>r memo'. findMaxPath depth entries memo c = Some (r, memo') \<and>
           good entries c r \<and> memo_ok entries memo'"
    unfolding solvable_def by blast
  have "\<forall>(c, ew)\<in>set l. solvable entries c" using Cons.prems by simp
  from Cons.IH[OF this] obtain N2 where N2': "\<forall>depth\<ge>N2. \<forall>memo acc B.
      memo_ok entries memo \<and> acc_ok entries B acc \<longrightarrow>
      (\<exists>acc' memo'. tryNeighbors depth entries memo l acc = Some (acc', memo') \<and>
        memo_ok entries memo' \<and> acc_ok entries (B \<union> set l) acc')" ..
  have N2: "\<And>depth memo acc B. depth \<ge> N2 \<Longrightarrow>
      memo_ok entries memo \<Longrightarrow> acc_ok entries B acc \<Longrightarrow>
      \<exists>acc' memo'. tryNeighbors depth entries memo l acc = Some (acc', memo') \<and>
        memo_ok entries memo' \<and> acc_ok entries (B \<union> set l) acc'"
    using N2'[rule_format] by (intro N2'[rule_format]) simp_all
  show ?case
  proof (intro exI[of _ "max N1 N2"] allI impI)
    fix depth memo acc B
    assume d: "max N1 N2 \<le> depth" and ok: "memo_ok entries memo \<and> acc_ok entries B acc"
    obtain mw bp where acc: "acc = (mw, bp)" by (cases acc)
    from N1[of depth memo] d ok obtain w p memo1 where
      f: "findMaxPath depth entries memo c = Some ((w, p), memo1)"
      and g: "good entries c (w, p)" and m1: "memo_ok entries memo1" by auto
    define acc1 where "acc1 = (if (case mw of None \<Rightarrow> True | Some m \<Rightarrow> ew + w > m)
        then (Some (ew + w), p) else (mw, bp))"
    have step: "tryNeighbors depth entries memo (a # l) acc = tryNeighbors depth entries memo1 l acc1"
      by (simp add: a acc f acc1_def Let_def)
    from g have lp: "leafPath entries c p" and wp: "w = pathWeight entries p"
      and mx: "\<And>q. leafPath entries c q \<Longrightarrow> pathWeight entries q \<le> w"
      unfolding good_def by auto
    have a1: "acc_ok entries (insert (c, ew) B) acc1"
    proof (cases mw)
      case None
      then have "B = {}" using ok acc by (simp add: acc_ok_def)
      then show ?thesis using None lp wp mx by (auto simp: acc1_def acc_ok_def)
    next
      case (Some m)
      from ok acc Some have
        ex: "\<exists>(c', ew')\<in>B. leafPath entries c' bp \<and> m = ew' + pathWeight entries bp"
        and al: "\<forall>(c', ew')\<in>B. \<forall>q. leafPath entries c' q \<longrightarrow> ew' + pathWeight entries q \<le> m"
        by (simp_all add: acc_ok_def)
      show ?thesis
      proof (cases "ew + w > m")
        case True
        have "\<forall>(c', ew')\<in>insert (c, ew) B. \<forall>q. leafPath entries c' q \<longrightarrow>
            ew' + pathWeight entries q \<le> ew + w"
          using al mx True by fastforce
        then show ?thesis using Some True lp wp by (auto simp: acc1_def acc_ok_def)
      next
        case False
        have "\<forall>(c', ew')\<in>insert (c, ew) B. \<forall>q. leafPath entries c' q \<longrightarrow>
            ew' + pathWeight entries q \<le> m"
          using al mx False by fastforce
        then show ?thesis using Some False ex by (auto simp: acc1_def acc_ok_def)
      qed
    qed
    have "N2 \<le> depth" using d by simp
    from N2[OF this m1 a1] obtain acc' memo' where
      "tryNeighbors depth entries memo1 l acc1 = Some (acc', memo')"
      "memo_ok entries memo'" "acc_ok entries (insert (c, ew) B \<union> set l) acc'" by auto
    then show "\<exists>acc' memo'. tryNeighbors depth entries memo (a # l) acc = Some (acc', memo') \<and>
        memo_ok entries memo' \<and> acc_ok entries (B \<union> set (a # l)) acc'"
      unfolding step by (auto simp: a)
  qed
qed

lemma leafPath_Cons:
  "leafPath entries n (x # q) \<longleftrightarrow>
     x = n \<and> (if q = [] then isLeaf entries n
               else (n, hd q) \<in> succRel entries \<and> leafPath entries (hd q) q)"
  by (cases q) (auto simp: leafPath_def)

lemma leafPath_nonempty: "leafPath entries n q \<Longrightarrow> \<exists>q'. q = n # q'"
  by (cases q) (auto simp: leafPath_def)

lemma pathWeight_Cons:
  "q \<noteq> [] \<Longrightarrow> pathWeight entries (n # q) = edgeWeight entries n (hd q) + pathWeight entries q"
  by (cases q) auto

lemma edgeWeight_entry:
  "entries n = Some l \<Longrightarrow> distinct (map fst l) \<Longrightarrow> (c, ew) \<in> set l \<Longrightarrow> edgeWeight entries n c = ew"
  by (simp add: edgeWeight_def)

lemma memo_okD: "memo_ok entries memo \<Longrightarrow> map_of memo n = Some r \<Longrightarrow> good entries n r"
  unfolding memo_ok_def by blast

lemma leaf_good:
  assumes "isLeaf entries node"
  shows "good entries node (0, [node])"
proof -
  have "\<And>q. leafPath entries node q \<Longrightarrow> q = [node]"
  proof -
    fix q assume q: "leafPath entries node q"
    then obtain q' where q': "q = node # q'" using leafPath_nonempty by blast
    have "q' = []"
    proof (rule ccontr)
      assume "q' \<noteq> []"
      then have "(node, hd q') \<in> succRel entries" using q q' by (simp add: leafPath_Cons)
      then show False using assms by (auto simp: succRel_def isLeaf_def)
    qed
    then show "q = [node]" using q' by simp
  qed
  then have "\<forall>q. leafPath entries node q \<longrightarrow> pathWeight entries q \<le> 0"
    by (metis pathWeight.simps(2) order_refl)
  then show ?thesis using assms by (simp add: good_def leafPath_def)
qed

lemma inner_good:
  assumes en: "entries node = Some l" and ne: "l \<noteq> []" and dk: "distinct (map fst l)"
    and acc: "acc_ok entries (set l) (mw, bp)"
  shows "\<exists>m. mw = Some m \<and> good entries node (m, node # bp)"
proof -
  from acc ne obtain m where m: "mw = Some m"
    by (cases mw) (auto simp: acc_ok_def)
  from acc m obtain c ew where ce: "(c, ew) \<in> set l" and lp: "leafPath entries c bp"
    and mw: "m = ew + pathWeight entries bp"
    and mx: "\<forall>(c', ew')\<in>set l. \<forall>q. leafPath entries c' q \<longrightarrow> ew' + pathWeight entries q \<le> m"
    by (auto simp: acc_ok_def)
  have bpne: "bp \<noteq> []" and hd: "hd bp = c" using lp by (simp_all add: leafPath_def)
  have edge: "(node, c) \<in> succRel entries" using en ce by (force simp: succRel_def)
  have nl: "\<not> isLeaf entries node" using en ne by (simp add: isLeaf_def)
  have p1: "leafPath entries node (node # bp)" using bpne hd edge lp by (simp add: leafPath_Cons)
  have p2: "m = pathWeight entries (node # bp)"
    using pathWeight_Cons[OF bpne] hd edgeWeight_entry[of entries node l, OF en dk ce] mw by simp
  have p3: "\<forall>q. leafPath entries node q \<longrightarrow> pathWeight entries q \<le> m"
  proof (intro allI impI)
    fix q assume q: "leafPath entries node q"
    then obtain q' where q': "q = node # q'" using leafPath_nonempty by blast
    have qne: "q' \<noteq> []" using q q' nl by (auto simp: leafPath_Cons)
    then have e': "(node, hd q') \<in> succRel entries" and lq: "leafPath entries (hd q') q'"
      using q q' by (simp_all add: leafPath_Cons)
    from e' en obtain ew' where ew': "(hd q', ew') \<in> set l" by (auto simp: succRel_def)
    have "pathWeight entries q = ew' + pathWeight entries q'"
      using pathWeight_Cons[OF qne] q' edgeWeight_entry[of entries node l, OF en dk ew'] by simp
    then show "pathWeight entries q \<le> m" using mx ew' lq by auto
  qed
  show ?thesis using m p1 p2 p3 by (simp add: good_def)
qed

lemma findMaxPath_solvable:
  assumes wfr: "wf ((succRel entries)\<inverse>)"
    and dk: "\<And>n es. entries n = Some es \<Longrightarrow> distinct (map fst es)"
  shows "solvable entries node"
  using wfr
proof (induction node rule: wf_induct_rule)
  case (less node)
  show ?case
  proof (cases "isLeaf entries node")
    case True
    have g: "good entries node (0, [node])" using True by (rule leaf_good)
    have "\<forall>depth\<ge>1. \<forall>memo. memo_ok entries memo \<longrightarrow>
        (\<exists>r memo'. findMaxPath depth entries memo node = Some (r, memo') \<and>
           good entries node r \<and> memo_ok entries memo')"
    proof (intro allI impI)
      fix depth :: nat and memo assume d: "1 \<le> depth" and ok: "memo_ok entries memo"
      then obtain k where k: "depth = Suc k" by (cases depth) auto
      show "\<exists>r memo'. findMaxPath depth entries memo node = Some (r, memo') \<and>
           good entries node r \<and> memo_ok entries memo'"
      proof (cases "map_of memo node")
        case None
        then have "findMaxPath depth entries memo node
            = Some ((0, [node]), AList.update node (0, [node]) memo)"
          using True k by (auto simp: isLeaf_def)
        then show ?thesis using g memo_ok_update[OF ok g] by blast
      next
        case (Some r)
        then have "findMaxPath depth entries memo node = Some (r, memo)" using k by simp
        moreover have "good entries node r" using ok Some by (rule memo_okD)
        ultimately show ?thesis using ok by blast
      qed
    qed
    then show ?thesis unfolding solvable_def by blast
  next
    case False
    then obtain e es where en: "entries node = Some (e # es)"
      by (cases "entries node"; cases "the (entries node)") (auto simp: isLeaf_def)
    let ?l = "e # es"
    have "\<forall>(c, ew)\<in>set ?l. solvable entries c"
    proof (clarify)
      fix c ew assume "(c, ew) \<in> set ?l"
      then have "(node, c) \<in> succRel entries" using en by (force simp: succRel_def)
      then show "solvable entries c" using less.IH by simp
    qed
    from tryNeighbors_solvable[OF this] obtain N where N: "\<forall>depth\<ge>N. \<forall>memo acc B.
      memo_ok entries memo \<and> acc_ok entries B acc \<longrightarrow>
      (\<exists>acc' memo'. tryNeighbors depth entries memo ?l acc = Some (acc', memo') \<and>
        memo_ok entries memo' \<and> acc_ok entries (B \<union> set ?l) acc')" ..
    have a0: "acc_ok entries {} (None, [])" by (simp add: acc_ok_def)
    have "\<forall>depth\<ge>Suc N. \<forall>memo. memo_ok entries memo \<longrightarrow>
        (\<exists>r memo'. findMaxPath depth entries memo node = Some (r, memo') \<and>
           good entries node r \<and> memo_ok entries memo')"
    proof (intro allI impI)
      fix depth :: nat and memo assume d: "Suc N \<le> depth" and ok: "memo_ok entries memo"
      then obtain k where k: "depth = Suc k" and kN: "N \<le> k" by (cases depth) auto
      show "\<exists>r memo'. findMaxPath depth entries memo node = Some (r, memo') \<and>
           good entries node r \<and> memo_ok entries memo'"
      proof (cases "map_of memo node")
        case (Some r)
        then have "findMaxPath depth entries memo node = Some (r, memo)" using k by simp
        moreover have "good entries node r" using ok Some by (rule memo_okD)
        ultimately show ?thesis using ok by blast
      next
        case None
        have "memo_ok entries memo \<and> acc_ok entries {} (None, [])" using ok a0 by simp
        from N[rule_format, OF kN this] obtain acc' memo1 where
          t: "tryNeighbors k entries memo ?l (None, []) = Some (acc', memo1)"
          and m1: "memo_ok entries memo1" and a1: "acc_ok entries ({} \<union> set ?l) acc'" by blast
        obtain mw bp where acc': "acc' = (mw, bp)" by (cases acc')
        have "acc_ok entries (set ?l) (mw, bp)" using a1 acc' by simp
        from inner_good[OF en _ dk[OF en] this] obtain m where
          m: "mw = Some m" and g: "good entries node (m, node # bp)" by auto
        have "findMaxPath depth entries memo node
            = Some ((m, node # bp), AList.update node (m, node # bp) memo1)"
          using k None en t acc' m by simp
        then show ?thesis using g memo_ok_update[OF m1 g] by blast
      qed
    qed
    then show ?thesis unfolding solvable_def by blast
  qed
qed

lemma succRel_set: "succRel (setEntries s) = edges s"
  by (force simp: succRel_def setEntries_def edges_def)

lemma succRel_map: "succRel (mapEntries s) = edges_w s"
  by (simp add: succRel_def mapEntries_def edges_w_def)

lemma isLeaf_set: "isLeaf (setEntries s) n \<longleftrightarrow> getChildrenOf s n = []"
  by (cases "map_of (adj s) n") (simp_all add: isLeaf_def setEntries_def getChildrenOf_def)

lemma isLeaf_map: "isLeaf (mapEntries s) n \<longleftrightarrow> getChildrenOf_w s n = []"
  by (cases "map_of (adj s) n") (simp_all add: isLeaf_def mapEntries_def getChildrenOf_w_def)

lemma distinct_setEntries: "wf_dag s \<Longrightarrow> setEntries s n = Some es \<Longrightarrow> distinct (map fst es)"
proof -
  assume w: "wf_dag s" and e: "setEntries s n = Some es"
  then obtain ns where ns: "map_of (adj s) n = Some ns" and es: "es = map (\<lambda>n. (n, n)) ns"
    by (auto simp: setEntries_def)
  have "distinct (getChildrenOf s n)" using w by (rule wf_children_distinct)
  then have "distinct ns" using ns by (simp add: getChildrenOf_def)
  then show ?thesis by (simp add: es comp_def)
qed

lemma distinct_mapEntries: "wf_dag_w s \<Longrightarrow> mapEntries s n = Some es \<Longrightarrow> distinct (map fst es)"
proof -
  assume w: "wf_dag_w s" and e: "mapEntries s n = Some es"
  have "distinct (getChildrenOf (forgetWeights s) n)"
    using w unfolding wf_dag_w_def by (rule wf_children_distinct)
  then show ?thesis using e by (simp add: children_forget getChildrenOf_w_def mapEntries_def)
qed

lemma memo_ok_empty: "memo_ok entries []"
  by (simp add: memo_ok_def)

lemma critical_path_maximal:
  assumes w: "wf_dag s" and ac: "acyclic (edges s)" and h: "hasTodo s root"
  shows "\<exists>N. \<forall>depth\<ge>N. \<exists>path. getCriticalPath depth s root = Some path \<and>
           good (setEntries s) root (pathWeight (setEntries s) path, path)"
proof -
  have "wf ((succRel (setEntries s))\<inverse>)"
    unfolding succRel_set using finite_edges ac by (rule finite_acyclic_wf_converse)
  then have "solvable (setEntries s) root"
    using distinct_setEntries[OF w] by (rule findMaxPath_solvable)
  then obtain N where N: "\<forall>depth\<ge>N. \<forall>memo. memo_ok (setEntries s) memo \<longrightarrow>
        (\<exists>r memo'. findMaxPath depth (setEntries s) memo root = Some (r, memo') \<and>
           good (setEntries s) root r \<and> memo_ok (setEntries s) memo')"
    unfolding solvable_def ..
  have "\<forall>depth\<ge>N. \<exists>path. getCriticalPath depth s root = Some path \<and>
           good (setEntries s) root (pathWeight (setEntries s) path, path)"
  proof (intro allI impI)
    fix depth assume "N \<le> depth"
    from N[rule_format, OF this memo_ok_empty] obtain r memo' where
      f: "findMaxPath depth (setEntries s) [] root = Some (r, memo')"
      and g: "good (setEntries s) root r" by blast
    obtain wt p where r: "r = (wt, p)" by (cases r)
    have "getCriticalPath depth s root = Some p"
      using h f r by (simp add: getCriticalPath_def hasTodo_def)
    moreover have "wt = pathWeight (setEntries s) p" using g r by (simp add: good_def)
    ultimately show "\<exists>path. getCriticalPath depth s root = Some path \<and>
           good (setEntries s) root (pathWeight (setEntries s) path, path)" using g r by auto
  qed
  then show ?thesis ..
qed

lemma critical_path_w_maximal:
  assumes w: "wf_dag_w s" and ac: "acyclic (edges_w s)" and h: "hasTodo s root"
  shows "\<exists>N. \<forall>depth\<ge>N. \<exists>path. getCriticalPath_w depth s root = Some path \<and>
           good (mapEntries s) root (pathWeight (mapEntries s) path, path)"
proof -
  have "finite (edges_w s)" using finite_edges[of "forgetWeights s"] by (simp add: edges_forget)
  then have "wf ((succRel (mapEntries s))\<inverse>)"
    unfolding succRel_map using ac by (rule finite_acyclic_wf_converse)
  then have "solvable (mapEntries s) root"
    using distinct_mapEntries[OF w] by (rule findMaxPath_solvable)
  then obtain N where N: "\<forall>depth\<ge>N. \<forall>memo. memo_ok (mapEntries s) memo \<longrightarrow>
        (\<exists>r memo'. findMaxPath depth (mapEntries s) memo root = Some (r, memo') \<and>
           good (mapEntries s) root r \<and> memo_ok (mapEntries s) memo')"
    unfolding solvable_def ..
  have "\<forall>depth\<ge>N. \<exists>path. getCriticalPath_w depth s root = Some path \<and>
           good (mapEntries s) root (pathWeight (mapEntries s) path, path)"
  proof (intro allI impI)
    fix depth assume "N \<le> depth"
    from N[rule_format, OF this memo_ok_empty] obtain r memo' where
      f: "findMaxPath depth (mapEntries s) [] root = Some (r, memo')"
      and g: "good (mapEntries s) root r" by blast
    obtain wt p where r: "r = (wt, p)" by (cases r)
    have "getCriticalPath_w depth s root = Some p"
      using h f r by (simp add: getCriticalPath_w_def hasTodo_def)
    moreover have "wt = pathWeight (mapEntries s) p" using g r by (simp add: good_def)
    ultimately show "\<exists>path. getCriticalPath_w depth s root = Some path \<and>
           good (mapEntries s) root (pathWeight (mapEntries s) path, path)" using g r by auto
  qed
  then show ?thesis ..
qed

section \<open>The diamond scenario\<close>

lemma diamond_eval: "diamondScenario = Some diamondState"
  by (simp add: diamondScenario_def eval_defs diamondState_def)

lemma diamond_w_eval: "diamondScenario_w = Some diamondState_w"
  by (simp add: diamondScenario_w_def eval_defs_w diamondState_w_def)

lemma diamond_path: "getCriticalPath 10 diamondState 1 = Some [1, 3, 4]"
  by (simp add: getCriticalPath_def setEntries_def diamondState_def has_def eval_nat_numeral)

lemma diamond_w_path: "getCriticalPath_w 10 diamondState_w 1 = Some [1, 2, 4]"
  by (simp add: getCriticalPath_w_def mapEntries_def diamondState_w_def has_def eval_nat_numeral)

lemma wf_diamondState: "wf_dag diamondState"
  by (simp add: wf_eval diamondState_def)

lemma wf_diamondState_w: "wf_dag_w diamondState_w"
  by (simp add: wf_eval diamondState_w_def)

lemma acyclic_diamondState: "acyclic (edges diamondState)"
  by (rule acyclic_increasing) (auto simp: edges_def diamondState_def split: if_splits)

lemma acyclic_diamondState_w: "acyclic (edges_w diamondState_w)"
  by (rule acyclic_increasing) (auto simp: edges_w_def diamondState_w_def split: if_splits)

section \<open>A guarded insertion, and weights that are current\<close>

lemma guarded_addDependency_acyclic:
  assumes w: "wf_dag s" and ac: "acyclic (edges s)"
    and m: "map_of (safeTargetsCache s) p = None"
    and p: "hasTodo s p" and d: "d \<in> set (fst (getSafeTargets s p))"
  shows "\<exists>s'. addDependency s p d = Some (True, s') \<and> wf_dag s' \<and> acyclic (edges s')"
proof -
  from d have dd: "d \<in> set (allTodoIds s)" "(d, p) \<notin> (edges s)\<^sup>*"
    unfolding safe_targets_miss[OF w m] safeTargetsSpec_def by auto
  then have "hasTodo s d" by (simp add: hasTodo_key allTodoIds_def)
  from addDependency_result[OF w p this] obtain s' where
    r: "addDependency s p d = Some (True, s')" and w': "wf_dag s'"
    and e: "edges s' = insert (p, d) (edges s)" by auto
  have "acyclic (edges s')" unfolding e using ac dd(2) by (simp add: acyclic_insert)
  then show ?thesis using r w' by simp
qed

lemma edgeWeight_current:
  assumes w: "wf_dag_w s" and c: "weightsCurrent s" and e: "(x, y) \<in> edges_w s"
  shows "edgeWeight (mapEntries s) x y = durationOf s x"
proof -
  from e obtain ns where ns: "map_of (adj s) x = Some ns" and y: "y \<in> fst ` set ns"
    by (auto simp: edges_w_def)
  then obtain wt where wt: "(y, wt) \<in> set ns" by auto
  have "(x, ns) \<in> set (adj s)" using ns by (rule map_of_SomeD)
  then have "wt = durationOf s x" using c wt by (auto simp: weightsCurrent_def)
  moreover have "distinct (map fst ns)" using distinct_mapEntries[OF w, of x ns] ns
    by (simp add: mapEntries_def)
  ultimately show ?thesis
    using edgeWeight_entry[of "mapEntries s" x ns y wt] ns wt by (simp add: mapEntries_def)
qed

lemma pathWeight_durations:
  assumes w: "wf_dag_w s" and c: "weightsCurrent s"
  shows "successively (\<lambda>a b. (a, b) \<in> edges_w s) path \<Longrightarrow>
         pathWeight (mapEntries s) path = sum_list (map (durationOf s) (butlast path))"
proof (induction path)
  case Nil
  then show ?case by simp
next
  case (Cons x path)
  show ?case
  proof (cases path)
    case Nil
    then show ?thesis by simp
  next
    case (Cons y rest)
    then have e: "(x, y) \<in> edges_w s" and t: "successively (\<lambda>a b. (a, b) \<in> edges_w s) path"
      using Cons.prems by simp_all
    show ?thesis using Cons.IH[OF t] edgeWeight_current[OF w c e] Cons by simp
  qed
qed

lemma weightsCurrent_diamond: "weightsCurrent diamondState_w"
  by (simp add: weightsCurrent_def diamondState_w_def durationOf_def task_def)

section \<open>The properties\<close>

text \<open>
  C1. The claim: along every sequence of public operations from the empty graph in which
  each edge addition reports success, no task is reachable from itself over the forward
  adjacency, the edge being committed only when the cycle guard permits it.
  \<^verbatim>\<open>addDependency\<close> consults no cycle guard in either copy of the class. After tasks 1
  and 2 are added, \<^verbatim>\<open>addDependency(1, 2)\<close> and \<^verbatim>\<open>addDependency(2, 1)\<close> both return
  \<^verbatim>\<open>true\<close>, and task 1 is then reachable from itself.
\<close>

theorem addDependency_accepts_cycle:
  "cycleScenario = Some (True, True, cycleState) \<and> (1, 1) \<in> (edges cycleState)\<^sup>+ \<and>
   cycleScenario_w = Some (True, True, cycleState_w) \<and> (1, 1) \<in> (edges_w cycleState_w)\<^sup>+"
proof -
  have "(1, 2) \<in> edges cycleState" "(2, 1) \<in> edges cycleState"
    by (simp_all add: edges_def cycleState_def)
  then have a: "(1, 1) \<in> (edges cycleState)\<^sup>+"
    by (rule trancl_into_trancl2[OF _ r_into_trancl])
  have "(1, 2) \<in> edges_w cycleState_w" "(2, 1) \<in> edges_w cycleState_w"
    by (simp_all add: edges_w_def cycleState_w_def)
  then have b: "(1, 1) \<in> (edges_w cycleState_w)\<^sup>+"
    by (rule trancl_into_trancl2[OF _ r_into_trancl])
  show ?thesis using a b cycleScenario_eval cycleScenario_w_eval by simp
qed

text \<open>
  C7. Calling \<^verbatim>\<open>calculateEarliestStartTimes\<close> a second time, with no mutation in between,
  leaves every task's \<^verbatim>\<open>minimumHours\<close> (and the whole state) as the first call left it.
\<close>

theorem scheduler_idempotent:
  "calculateEarliestStartTimes s = Some s' \<Longrightarrow> calculateEarliestStartTimes s' = Some s'"
  by (rule calc_idempotent)

theorem scheduler_idempotent_witness:
  "calculateEarliestStartTimes chainState = Some chainScheduled \<and>
   calculateEarliestStartTimes chainScheduled = Some chainScheduled"
  using scheduler_idempotent[of chainState chainScheduled] chain_calc by simp

text \<open>
  C3. The claim: each of \<^verbatim>\<open>addTodo\<close>, \<^verbatim>\<open>addDependency\<close>, \<^verbatim>\<open>deleteDependency\<close> and
  \<^verbatim>\<open>deleteNode\<close> empties the safe-target cache and recomputes the earliest starts before
  it returns. \<^verbatim>\<open>addDependency\<close> does not recompute: after the edge 1 \<rightarrow> 2 is added, task 2
  still has \<^verbatim>\<open>minimumHours\<close> 0, and a recompute changes the state.
\<close>

theorem addDependency_no_recompute:
  "addDependency twoTasksState 1 2 = Some (True, chainState) \<and>
   calculateEarliestStartTimes chainState \<noteq> Some chainState"
  by (simp add: chain_add chain_calc) (simp add: chainScheduled_def chainState_def task_def)

text \<open>
  C3 as the code has it, on a well-formed state: \<^verbatim>\<open>addTodo\<close>, \<^verbatim>\<open>deleteDependency\<close> of an
  existing edge and \<^verbatim>\<open>deleteNode\<close> return a state that a further recompute leaves
  unchanged; \<^verbatim>\<open>deleteDependency\<close> of an existing edge, \<^verbatim>\<open>deleteNode\<close> and a successful
  \<^verbatim>\<open>addDependency\<close> return with an empty safe-target cache; \<^verbatim>\<open>addDependency\<close> leaves
  every stored task, hence every \<^verbatim>\<open>minimumHours\<close>, as it was.
\<close>

theorem mutators_recompute_and_invalidate:
  assumes "wf_dag s"
  shows "(\<exists>s'. addTodo s t = Some s' \<and> calculateEarliestStartTimes s' = Some s') \<and>
     (hasDependency s from to = Some True \<longrightarrow>
        (\<exists>s'. deleteDependency s from to = Some s' \<and> safeTargetsCache s' = [] \<and>
              calculateEarliestStartTimes s' = Some s')) \<and>
     (\<exists>s'. deleteNode s node = Some s' \<and> safeTargetsCache s' = [] \<and>
           calculateEarliestStartTimes s' = Some s') \<and>
     (hasTodo s p \<and> hasTodo s d \<longrightarrow>
        (\<exists>s'. addDependency s p d = Some (True, s') \<and> safeTargetsCache s' = [] \<and>
              idToTodo s' = idToTodo s))"
proof (intro conjI impI)
  show "\<exists>s'. addTodo s t = Some s' \<and> calculateEarliestStartTimes s' = Some s'"
    using addTodo_result[OF assms, of t] by auto
  show "\<exists>s'. deleteNode s node = Some s' \<and> safeTargetsCache s' = [] \<and>
           calculateEarliestStartTimes s' = Some s'"
    using deleteNode_result[OF assms, of node] by auto
next
  assume "hasDependency s from to = Some True"
  from deleteDependency_result[OF assms this]
  show "\<exists>s'. deleteDependency s from to = Some s' \<and> safeTargetsCache s' = [] \<and>
              calculateEarliestStartTimes s' = Some s'" by auto
next
  assume "hasTodo s p \<and> hasTodo s d"
  then show "\<exists>s'. addDependency s p d = Some (True, s') \<and> safeTargetsCache s' = [] \<and>
              idToTodo s' = idToTodo s"
    using addDependency_result[OF assms, of p d] by auto
qed

theorem mutators_recompute_and_invalidate_witness:
  "wf_dag chainScheduled \<and> hasDependency chainScheduled 1 2 = Some True \<and>
   hasTodo chainScheduled 2 \<and> hasTodo chainScheduled 1 \<and>
   (\<exists>s'. addTodo chainScheduled (task 3 4) = Some s' \<and> calculateEarliestStartTimes s' = Some s') \<and>
   (\<exists>s'. deleteDependency chainScheduled 1 2 = Some s' \<and> safeTargetsCache s' = [] \<and>
         calculateEarliestStartTimes s' = Some s') \<and>
   (\<exists>s'. deleteNode chainScheduled 2 = Some s' \<and> safeTargetsCache s' = [] \<and>
         calculateEarliestStartTimes s' = Some s') \<and>
   (\<exists>s'. addDependency chainScheduled 2 1 = Some (True, s') \<and> safeTargetsCache s' = [] \<and>
         idToTodo s' = idToTodo chainScheduled)"
proof -
  have h: "hasDependency chainScheduled 1 2 = Some True" "hasTodo chainScheduled 2"
    "hasTodo chainScheduled 1"
    by (simp_all add: hasDependency_def hasTodo_def has_def chainScheduled_def chainState_def)
  show ?thesis
    using mutators_recompute_and_invalidate[OF wf_chainScheduled, of "task 3 4" 1 2 2 2 1] h
      wf_chainScheduled by simp
qed

text \<open>
  C9. The claim: \<^verbatim>\<open>addTodo\<close> of a task whose id is already stored changes nothing.
  \<^verbatim>\<open>addTodo\<close> stores the given object under the id unconditionally and recomputes: with
  the chain 1 \<rightarrow> 2 scheduled, adding a task with id 1 and 7 hours replaces the stored task 1 and
  moves the earliest start of task 2 from 3 to 7.
\<close>

theorem addTodo_existing_overwrites:
  "hasTodo chainScheduled 1 \<and> addTodo chainScheduled (task 1 7) = Some overwrittenState \<and>
   overwrittenState \<noteq> chainScheduled"
  by (simp add: overwrite_eval)
     (simp add: hasTodo_def has_def chainScheduled_def chainState_def overwrittenState_def task_def)

text \<open>
  C9 as the code has it, on a well-formed state that holds the id: both adjacency maps, the
  safe-target cache and the stored ids with their order are unchanged; every other stored
  task keeps all its fields but \<^verbatim>\<open>minimumHours\<close>; the stored task of that id is the given
  one; \<^verbatim>\<open>minimumHours\<close> of every task is what the recompute gives.
\<close>

theorem addTodo_existing_frame:
  assumes "wf_dag s" and "hasTodo s (todo_id t)"
  shows "\<exists>s'. addTodo s t = Some s' \<and>
     adj s' = adj s \<and> rev_adj s' = rev_adj s \<and> safeTargetsCache s' = safeTargetsCache s \<and>
     map fst (idToTodo s') = map fst (idToTodo s) \<and>
     (\<forall>k u. k \<noteq> todo_id t \<longrightarrow> map_of (idToTodo s) k = Some u \<longrightarrow>
        map_of (idToTodo s') k = Some (u\<lparr>minimumHours := startOf s' k\<rparr>)) \<and>
     map_of (idToTodo s') (todo_id t) = Some (t\<lparr>minimumHours := startOf s' (todo_id t)\<rparr>) \<and>
     calculateEarliestStartTimes s' = Some s'"
proof -
  have k: "todo_id t \<in> fst ` set (idToTodo s)" using assms(2) by (simp add: hasTodo_key)
  then have "todo_id t \<in> fst ` set (adj s)" using wf_dagD(6)[OF assms(1)] by simp
  then have "has (adj s) (todo_id t)" using map_of_eq_None_iff[of "adj s" "todo_id t"]
    by (simp add: has_def)
  then have n: "addNode s (todo_id t) = s" by (simp add: addNode_def)
  have u: "map fst (AList.update (todo_id t) t (idToTodo s)) = map fst (idToTodo s)"
    using k by (rule keys_update_present)
  from addTodo_result[OF assms(1), of t] obtain s' where
    "addTodo s t = Some s'" "calculateEarliestStartTimes s' = Some s'"
    "safeTargetsCache s' = safeTargetsCache s"
    "adj s' = adj (addNode s (todo_id t))" "rev_adj s' = rev_adj (addNode s (todo_id t))"
    "map fst (idToTodo s') = map fst (AList.update (todo_id t) t (idToTodo s))"
    "\<forall>k. map_of (idToTodo s') k =
         map_option (\<lambda>u. u\<lparr>minimumHours := startOf s' k\<rparr>) (((map_of (idToTodo s))(todo_id t \<mapsto> t)) k)"
    by (elim exE conjE) (rule that; assumption)
  then show ?thesis unfolding n u by simp
qed

theorem addTodo_existing_frame_witness:
  "wf_dag chainScheduled \<and> hasTodo chainScheduled (todo_id (task 1 7)) \<and>
   (\<exists>s'. addTodo chainScheduled (task 1 7) = Some s' \<and>
     adj s' = adj chainScheduled \<and> rev_adj s' = rev_adj chainScheduled \<and>
     safeTargetsCache s' = safeTargetsCache chainScheduled \<and>
     map fst (idToTodo s') = map fst (idToTodo chainScheduled) \<and>
     (\<forall>k u. k \<noteq> todo_id (task 1 7) \<longrightarrow> map_of (idToTodo chainScheduled) k = Some u \<longrightarrow>
        map_of (idToTodo s') k = Some (u\<lparr>minimumHours := startOf s' k\<rparr>)) \<and>
     map_of (idToTodo s') (todo_id (task 1 7)) =
        Some ((task 1 7)\<lparr>minimumHours := startOf s' (todo_id (task 1 7))\<rparr>) \<and>
     calculateEarliestStartTimes s' = Some s')"
proof -
  have h: "hasTodo chainScheduled (todo_id (task 1 7))"
    by (simp add: hasTodo_def has_def chainScheduled_def chainState_def task_def)
  show ?thesis using addTodo_existing_frame[OF wf_chainScheduled h] wf_chainScheduled h by simp
qed

text \<open>
  C5. On an acyclic, well-formed state with non-negative durations,
  \<^verbatim>\<open>calculateEarliestStartTimes\<close> returns, and then (\<open>scheduleCorrect\<close>) every edge
  prerequisite \<rightarrow> dependent has \<open>start dependent \<ge> start prerequisite + duration prerequisite\<close>,
  every task without prerequisites starts at 0, and every other task attains equality on one
  of its incoming edges. This holds for both copies of the class. With tasks 1 (2 hours),
  2 (3 hours), 3 (4 hours) and edges 1 \<rightarrow> 3, 2 \<rightarrow> 3, task 3 starts at 3.
\<close>

theorem earliest_start_correct:
  "(wf_dag s \<and> acyclic (edges s) \<and> (\<forall>n. 0 \<le> durationOf s n) \<longrightarrow>
      (\<exists>s'. calculateEarliestStartTimes s = Some s' \<and>
         scheduleCorrect (set (allTodoIds s)) (getParentIds s) (durationOf s') (startOf s'))) \<and>
   (wf_dag_w r \<and> acyclic (edges_w r) \<and> (\<forall>n. 0 \<le> durationOf r n) \<longrightarrow>
      (\<exists>r'. calculateEarliestStartTimes_w r = Some r' \<and>
         scheduleCorrect (set (allTodoIds r)) (getParentIds r) (durationOf r') (startOf r'))) \<and>
   map_option (\<lambda>s'. startOf s' 3) (calculateEarliestStartTimes joinState) = Some 3 \<and>
   map_option (\<lambda>r'. startOf r' 3) (calculateEarliestStartTimes_w joinState_w) = Some 3"
proof (intro conjI impI)
  assume "wf_dag s \<and> acyclic (edges s) \<and> (\<forall>n. 0 \<le> durationOf s n)"
  then show "\<exists>s'. calculateEarliestStartTimes s = Some s' \<and>
         scheduleCorrect (set (allTodoIds s)) (getParentIds s) (durationOf s') (startOf s')"
    using schedule_correct[of s] by auto
next
  assume "wf_dag_w r \<and> acyclic (edges_w r) \<and> (\<forall>n. 0 \<le> durationOf r n)"
  then show "\<exists>r'. calculateEarliestStartTimes_w r = Some r' \<and>
         scheduleCorrect (set (allTodoIds r)) (getParentIds r) (durationOf r') (startOf r')"
    using schedule_correct_w[of r] by auto
next
  show "map_option (\<lambda>s'. startOf s' 3) (calculateEarliestStartTimes joinState) = Some 3"
    by (simp add: join_eval startOf_def task_def)
  show "map_option (\<lambda>r'. startOf r' 3) (calculateEarliestStartTimes_w joinState_w) = Some 3"
    by (simp add: join_w_eval startOf_def task_def)
qed

theorem earliest_start_correct_witness:
  "wf_dag joinState \<and> acyclic (edges joinState) \<and> (\<forall>n. 0 \<le> durationOf joinState n) \<and>
   (\<exists>s'. calculateEarliestStartTimes joinState = Some s' \<and>
      scheduleCorrect (set (allTodoIds joinState)) (getParentIds joinState) (durationOf s') (startOf s')) \<and>
   wf_dag_w joinState_w \<and> acyclic (edges_w joinState_w) \<and> (\<forall>n. 0 \<le> durationOf joinState_w n) \<and>
   (\<exists>r'. calculateEarliestStartTimes_w joinState_w = Some r' \<and>
      scheduleCorrect (set (allTodoIds joinState_w)) (getParentIds joinState_w) (durationOf r') (startOf r'))"
  using earliest_start_correct[of joinState joinState_w]
    wf_joinState acyclic_joinState durations_joinState
    wf_joinState_w acyclic_joinState_w durations_joinState_w
  by simp

text \<open>
  C10. On every well-formed state, cyclic or not, \<^verbatim>\<open>calculateEarliestStartTimes\<close> returns.
  The tasks it takes off the queue are pairwise different tasks of the store, so there are at
  most as many dequeues as tasks; a task is processed exactly when all its prerequisites
  are; a task on a cycle or downstream of one is never processed, and its earliest start is
  the largest finish time among its processed prerequisites, 0 if there is none. This holds
  for both copies of the class. (The loop itself terminates on every state whatsoever: that
  is the termination proof of \<open>kahnLoop\<close>.)
\<close>

theorem scheduler_terminates:
  "(wf_dag s \<longrightarrow>
      (\<exists>s'. calculateEarliestStartTimes s = Some s' \<and>
         distinct (processedTasks s) \<and> set (processedTasks s) \<subseteq> set (allTodoIds s) \<and>
         length (processedTasks s) \<le> numTodos s \<and>
         (\<forall>n\<in>set (allTodoIds s).
            (n \<in> set (processedTasks s)) = (set (getParentIds s n) \<subseteq> set (processedTasks s))) \<and>
         (\<forall>n\<in>set (allTodoIds s). (\<exists>c. (c, c) \<in> (edges s)\<^sup>+ \<and> (c, n) \<in> (edges s)\<^sup>*) \<longrightarrow>
            n \<notin> set (processedTasks s) \<and>
            startOf s' n = Max (insert 0 ((\<lambda>p. startOf s' p + durationOf s p) `
               (set (getParentIds s n) \<inter> set (processedTasks s))))))) \<and>
   (wf_dag_w r \<longrightarrow>
      (\<exists>r'. calculateEarliestStartTimes_w r = Some r' \<and>
         distinct (processedTasks_w r) \<and> set (processedTasks_w r) \<subseteq> set (allTodoIds r) \<and>
         length (processedTasks_w r) \<le> numTodos r \<and>
         (\<forall>n\<in>set (allTodoIds r).
            (n \<in> set (processedTasks_w r)) = (set (getParentIds r n) \<subseteq> set (processedTasks_w r))) \<and>
         (\<forall>n\<in>set (allTodoIds r). (\<exists>c. (c, c) \<in> (edges_w r)\<^sup>+ \<and> (c, n) \<in> (edges_w r)\<^sup>*) \<longrightarrow>
            n \<notin> set (processedTasks_w r) \<and>
            startOf r' n = Max (insert 0 ((\<lambda>p. startOf r' p + durationOf r p) `
               (set (getParentIds r n) \<inter> set (processedTasks_w r)))))))"
proof (intro conjI impI)
  assume w: "wf_dag s"
  from calc_correct[OF w] obtain s' where
    calc: "calculateEarliestStartTimes s = Some s'"
    and dist: "distinct (processedTasks s)"
    and DV: "set (processedTasks s) \<subseteq> set (allTodoIds s)"
    and cl: "\<forall>n\<in>set (allTodoIds s).
        (n \<in> set (processedTasks s)) = (set (getParentIds s n) \<subseteq> set (processedTasks s))"
    and mx: "\<forall>n\<in>set (allTodoIds s). startOf s' n =
        Max (insert 0 ((\<lambda>p. startOf s' p + durationOf s p) `
               (set (getParentIds s n) \<inter> set (processedTasks s))))"
    and cy: "\<forall>n\<in>set (processedTasks s). \<forall>c. (c, n) \<in> (edges s)\<^sup>* \<longrightarrow> (c, c) \<notin> (edges s)\<^sup>+"
    by (elim exE conjE) (rule that; assumption)
  have len: "length (processedTasks s) \<le> numTodos s" using dist DV by (rule processed_bound)
  have never: "\<forall>n\<in>set (allTodoIds s). (\<exists>c. (c, c) \<in> (edges s)\<^sup>+ \<and> (c, n) \<in> (edges s)\<^sup>*) \<longrightarrow>
            n \<notin> set (processedTasks s) \<and>
            startOf s' n = Max (insert 0 ((\<lambda>p. startOf s' p + durationOf s p) `
               (set (getParentIds s n) \<inter> set (processedTasks s))))"
    using cy mx by blast
  show "\<exists>s'. calculateEarliestStartTimes s = Some s' \<and>
         distinct (processedTasks s) \<and> set (processedTasks s) \<subseteq> set (allTodoIds s) \<and>
         length (processedTasks s) \<le> numTodos s \<and>
         (\<forall>n\<in>set (allTodoIds s).
            (n \<in> set (processedTasks s)) = (set (getParentIds s n) \<subseteq> set (processedTasks s))) \<and>
         (\<forall>n\<in>set (allTodoIds s). (\<exists>c. (c, c) \<in> (edges s)\<^sup>+ \<and> (c, n) \<in> (edges s)\<^sup>*) \<longrightarrow>
            n \<notin> set (processedTasks s) \<and>
            startOf s' n = Max (insert 0 ((\<lambda>p. startOf s' p + durationOf s p) `
               (set (getParentIds s n) \<inter> set (processedTasks s)))))"
    using calc dist DV len cl never by (intro exI conjI) assumption+
next
  assume w: "wf_dag_w r"
  from calc_w_correct[OF w] obtain r' where
    calc: "calculateEarliestStartTimes_w r = Some r'"
    and dist: "distinct (processedTasks_w r)"
    and DV: "set (processedTasks_w r) \<subseteq> set (allTodoIds r)"
    and cl: "\<forall>n\<in>set (allTodoIds r).
        (n \<in> set (processedTasks_w r)) = (set (getParentIds r n) \<subseteq> set (processedTasks_w r))"
    and mx: "\<forall>n\<in>set (allTodoIds r). startOf r' n =
        Max (insert 0 ((\<lambda>p. startOf r' p + durationOf r p) `
               (set (getParentIds r n) \<inter> set (processedTasks_w r))))"
    and cy: "\<forall>n\<in>set (processedTasks_w r). \<forall>c. (c, n) \<in> (edges_w r)\<^sup>* \<longrightarrow> (c, c) \<notin> (edges_w r)\<^sup>+"
    by (elim exE conjE) (rule that; assumption)
  have len: "length (processedTasks_w r) \<le> numTodos r" using dist DV by (rule processed_bound)
  have never: "\<forall>n\<in>set (allTodoIds r). (\<exists>c. (c, c) \<in> (edges_w r)\<^sup>+ \<and> (c, n) \<in> (edges_w r)\<^sup>*) \<longrightarrow>
            n \<notin> set (processedTasks_w r) \<and>
            startOf r' n = Max (insert 0 ((\<lambda>p. startOf r' p + durationOf r p) `
               (set (getParentIds r n) \<inter> set (processedTasks_w r))))"
    using cy mx by blast
  show "\<exists>r'. calculateEarliestStartTimes_w r = Some r' \<and>
         distinct (processedTasks_w r) \<and> set (processedTasks_w r) \<subseteq> set (allTodoIds r) \<and>
         length (processedTasks_w r) \<le> numTodos r \<and>
         (\<forall>n\<in>set (allTodoIds r).
            (n \<in> set (processedTasks_w r)) = (set (getParentIds r n) \<subseteq> set (processedTasks_w r))) \<and>
         (\<forall>n\<in>set (allTodoIds r). (\<exists>c. (c, c) \<in> (edges_w r)\<^sup>+ \<and> (c, n) \<in> (edges_w r)\<^sup>*) \<longrightarrow>
            n \<notin> set (processedTasks_w r) \<and>
            startOf r' n = Max (insert 0 ((\<lambda>p. startOf r' p + durationOf r p) `
               (set (getParentIds r n) \<inter> set (processedTasks_w r)))))"
    using calc dist DV len cl never by (intro exI conjI) assumption+
qed

theorem scheduler_terminates_witness:
  "wf_dag loopState \<and> wf_dag_w loopState_w \<and>
   (\<exists>s'. calculateEarliestStartTimes loopState = Some s' \<and>
      distinct (processedTasks loopState) \<and> set (processedTasks loopState) \<subseteq> set (allTodoIds loopState) \<and>
      length (processedTasks loopState) \<le> numTodos loopState) \<and>
   (\<exists>r'. calculateEarliestStartTimes_w loopState_w = Some r' \<and>
      distinct (processedTasks_w loopState_w) \<and>
      set (processedTasks_w loopState_w) \<subseteq> set (allTodoIds loopState_w) \<and>
      length (processedTasks_w loopState_w) \<le> numTodos loopState_w)"
proof -
  note t = scheduler_terminates[of loopState loopState_w]
  from t[THEN conjunct1, THEN mp, OF wf_loopState] have
    "\<exists>s'. calculateEarliestStartTimes loopState = Some s' \<and>
      distinct (processedTasks loopState) \<and> set (processedTasks loopState) \<subseteq> set (allTodoIds loopState) \<and>
      length (processedTasks loopState) \<le> numTodos loopState"
    by (elim exE conjE) (intro exI conjI; assumption)
  moreover from t[THEN conjunct2, THEN mp, OF wf_loopState_w] have
    "\<exists>r'. calculateEarliestStartTimes_w loopState_w = Some r' \<and>
      distinct (processedTasks_w loopState_w) \<and>
      set (processedTasks_w loopState_w) \<subseteq> set (allTodoIds loopState_w) \<and>
      length (processedTasks_w loopState_w) \<le> numTodos loopState_w"
    by (elim exE conjE) (intro exI conjI; assumption)
  ultimately show ?thesis using wf_loopState wf_loopState_w by simp
qed

text \<open>
  C4. The claim: for tasks \<open>p\<close> and \<open>d\<close> of the store, \<open>d\<close> is in \<^verbatim>\<open>getSafeTargets(p)\<close> exactly
  when \<open>p\<close> is not reachable from \<open>d\<close>. \<^verbatim>\<open>getSafeTargets\<close> answers from its cache, and
  \<^verbatim>\<open>addTodo\<close> does not empty the cache: after task 1 is added and asked for, and task 2 is
  added, \<^verbatim>\<open>getSafeTargets(1)\<close> is still empty, although task 2 is stored and task 1 is not
  reachable from it. The same holds in the second copy. (When the cache holds no entry
  for \<open>p\<close>, the answer is the claimed set: \<open>safe_targets_miss\<close>, \<open>safe_targets_w_miss\<close>.)
\<close>

theorem getSafeTargets_stale_after_addTodo:
  "staleScenario = Some ([], staleState) \<and>
   hasTodo staleState 1 \<and> hasTodo staleState 2 \<and> (2, 1) \<notin> (edges staleState)\<^sup>* \<and>
   staleScenario_w = Some ([], staleState_w) \<and>
   hasTodo staleState_w 1 \<and> hasTodo staleState_w 2 \<and> (2, 1) \<notin> (edges_w staleState_w)\<^sup>*"
proof -
  have "edges staleState = {}" by (auto simp: edges_def staleState_def split: if_splits)
  then have a: "(2, 1) \<notin> (edges staleState)\<^sup>*" by simp
  have "edges_w staleState_w = {}" by (auto simp: edges_w_def staleState_w_def split: if_splits)
  then have b: "(2, 1) \<notin> (edges_w staleState_w)\<^sup>*" by simp
  have c: "hasTodo staleState 1" "hasTodo staleState 2" "hasTodo staleState_w 1" "hasTodo staleState_w 2"
    by (simp_all add: hasTodo_def has_def staleState_def staleState_w_def)
  show ?thesis using a b c stale_eval stale_w_eval by simp
qed

text \<open>
  C6. On a well-formed state whose cache holds no entry for \<open>p\<close>, the ancestor-set method of
  \<^verbatim>\<open>dag.ts\<close> (run on the same graph) and the forward-reachability probe of the second copy
  return the same set of ids, namely the tasks \<open>d \<noteq> p\<close> from which \<open>p\<close> is not reachable over
  the forward adjacency.
\<close>

theorem safe_target_methods_agree:
  assumes "wf_dag_w r" and "map_of (safeTargetsCache r) p = None"
  shows "set (fst (getSafeTargets (forgetWeights r) p)) = set (fst (getSafeTargets_w r p)) \<and>
         set (fst (getSafeTargets_w r p)) = safeTargetsSpec (set (allTodoIds r)) (edges_w r) p"
proof -
  have w: "wf_dag (forgetWeights r)" using assms(1) by (simp add: wf_dag_w_def)
  have m: "map_of (safeTargetsCache (forgetWeights r)) p = None" using assms(2) by (simp add: forget_simps)
  show ?thesis
    using safe_targets_miss[OF w m] safe_targets_w_miss[OF assms]
    by (simp add: forget_simps edges_forget)
qed

theorem safe_target_methods_agree_witness:
  "wf_dag_w joinState_w \<and> map_of (safeTargetsCache joinState_w) 1 = None \<and>
   set (fst (getSafeTargets (forgetWeights joinState_w) 1)) = set (fst (getSafeTargets_w joinState_w 1)) \<and>
   set (fst (getSafeTargets_w joinState_w 1))
     = safeTargetsSpec (set (allTodoIds joinState_w)) (edges_w joinState_w) 1"
proof -
  have m: "map_of (safeTargetsCache joinState_w) 1 = None" by (simp add: joinState_w_def)
  show ?thesis using safe_target_methods_agree[OF wf_joinState_w m] wf_joinState_w m by simp
qed

text \<open>
  C8. On an acyclic, well-formed state \<^verbatim>\<open>getCriticalPath(root)\<close> returns the empty sequence
  when \<open>root\<close> is not stored. When it is stored, the call returns as soon as the call stack
  allows the recursion depth the graph needs, and the sequence returned is not empty, begins
  with \<open>root\<close>, has a forward edge between every two consecutive ids, and ends in a task
  without dependents. This holds for both copies of the class.
\<close>

theorem critical_path_shape:
  "(wf_dag s \<and> acyclic (edges s) \<longrightarrow>
      (\<not> hasTodo s root \<longrightarrow> (\<forall>depth. getCriticalPath depth s root = Some [])) \<and>
      (hasTodo s root \<longrightarrow>
         (\<exists>N. \<forall>depth\<ge>N. \<exists>path. getCriticalPath depth s root = Some path \<and>
            path \<noteq> [] \<and> hd path = root \<and> successively (\<lambda>a b. (a, b) \<in> edges s) path \<and>
            getChildrenOf s (last path) = []))) \<and>
   (wf_dag_w r \<and> acyclic (edges_w r) \<longrightarrow>
      (\<not> hasTodo r root' \<longrightarrow> (\<forall>depth. getCriticalPath_w depth r root' = Some [])) \<and>
      (hasTodo r root' \<longrightarrow>
         (\<exists>N. \<forall>depth\<ge>N. \<exists>path. getCriticalPath_w depth r root' = Some path \<and>
            path \<noteq> [] \<and> hd path = root' \<and> successively (\<lambda>a b. (a, b) \<in> edges_w r) path \<and>
            getChildrenOf_w r (last path) = [])))"
proof (intro conjI impI allI)
  fix depth assume "\<not> hasTodo s root"
  then show "getCriticalPath depth s root = Some []" by (simp add: getCriticalPath_def hasTodo_def)
next
  fix depth assume "\<not> hasTodo r root'"
  then show "getCriticalPath_w depth r root' = Some []" by (simp add: getCriticalPath_w_def hasTodo_def)
next
  assume a: "wf_dag s \<and> acyclic (edges s)" and h: "hasTodo s root"
  from critical_path_maximal[of s root] a h obtain N where
    N: "\<forall>depth\<ge>N. \<exists>path. getCriticalPath depth s root = Some path \<and>
           good (setEntries s) root (pathWeight (setEntries s) path, path)" by blast
  have "\<forall>depth\<ge>N. \<exists>path. getCriticalPath depth s root = Some path \<and>
            path \<noteq> [] \<and> hd path = root \<and> successively (\<lambda>a b. (a, b) \<in> edges s) path \<and>
            getChildrenOf s (last path) = []"
    using N by (auto simp: good_def leafPath_def succRel_set isLeaf_set)
  then show "\<exists>N. \<forall>depth\<ge>N. \<exists>path. getCriticalPath depth s root = Some path \<and>
            path \<noteq> [] \<and> hd path = root \<and> successively (\<lambda>a b. (a, b) \<in> edges s) path \<and>
            getChildrenOf s (last path) = []" ..
next
  assume a: "wf_dag_w r \<and> acyclic (edges_w r)" and h: "hasTodo r root'"
  from critical_path_w_maximal[of r root'] a h obtain N where
    N: "\<forall>depth\<ge>N. \<exists>path. getCriticalPath_w depth r root' = Some path \<and>
           good (mapEntries r) root' (pathWeight (mapEntries r) path, path)" by blast
  have "\<forall>depth\<ge>N. \<exists>path. getCriticalPath_w depth r root' = Some path \<and>
            path \<noteq> [] \<and> hd path = root' \<and> successively (\<lambda>a b. (a, b) \<in> edges_w r) path \<and>
            getChildrenOf_w r (last path) = []"
    using N by (auto simp: good_def leafPath_def succRel_map isLeaf_map)
  then show "\<exists>N. \<forall>depth\<ge>N. \<exists>path. getCriticalPath_w depth r root' = Some path \<and>
            path \<noteq> [] \<and> hd path = root' \<and> successively (\<lambda>a b. (a, b) \<in> edges_w r) path \<and>
            getChildrenOf_w r (last path) = []" ..
qed

theorem critical_path_shape_witness:
  "wf_dag diamondState \<and> acyclic (edges diamondState) \<and>
   hasTodo diamondState 1 \<and> \<not> hasTodo diamondState 9 \<and>
   (\<forall>depth. getCriticalPath depth diamondState 9 = Some []) \<and>
   (\<exists>N. \<forall>depth\<ge>N. \<exists>path. getCriticalPath depth diamondState 1 = Some path \<and>
      path \<noteq> [] \<and> hd path = 1 \<and> successively (\<lambda>a b. (a, b) \<in> edges diamondState) path \<and>
      getChildrenOf diamondState (last path) = []) \<and>
   wf_dag_w diamondState_w \<and> acyclic (edges_w diamondState_w) \<and>
   hasTodo diamondState_w 1 \<and> \<not> hasTodo diamondState_w 9 \<and>
   (\<forall>depth. getCriticalPath_w depth diamondState_w 9 = Some []) \<and>
   (\<exists>N. \<forall>depth\<ge>N. \<exists>path. getCriticalPath_w depth diamondState_w 1 = Some path \<and>
      path \<noteq> [] \<and> hd path = 1 \<and> successively (\<lambda>a b. (a, b) \<in> edges_w diamondState_w) path \<and>
      getChildrenOf_w diamondState_w (last path) = [])"
proof -
  have h: "hasTodo diamondState 1" "\<not> hasTodo diamondState 9"
    "hasTodo diamondState_w 1" "\<not> hasTodo diamondState_w 9"
    by (simp_all add: hasTodo_def has_def diamondState_def diamondState_w_def)
  note a = wf_diamondState acyclic_diamondState wf_diamondState_w acyclic_diamondState_w
  show ?thesis
    using critical_path_shape[of diamondState 1 diamondState_w 1]
      critical_path_shape[of diamondState 9 diamondState_w 9] h a
    by simp
qed

text \<open>
  C2. The claim: \<^verbatim>\<open>getCriticalPath(root)\<close> returns a forward path of maximal weight, the
  weight of an edge being the duration of its source, and in the diamond it returns the path
  through C. In \<^verbatim>\<open>dag.ts\<close> the forward adjacency is a \<^verbatim>\<open>Set\<close>, so \<^verbatim>\<open>edgeWeight\<close> in
  \<^verbatim>\<open>for (const [neighbor, edgeWeight] of neighbors.entries())\<close> is the id of the dependent.
  With the ids A = 1, B = 3, C = 2, D = 4 the call returns A, B, D (weight 3 + 4 against
  2 + 4). The second copy, which stores the duration with the edge, returns A, C, D.
\<close>

theorem critical_path_diamond:
  "diamondScenario = Some diamondState \<and> getCriticalPath 10 diamondState 1 = Some [1, 3, 4] \<and>
   diamondScenario_w = Some diamondState_w \<and> getCriticalPath_w 10 diamondState_w 1 = Some [1, 2, 4]"
  using diamond_eval diamond_path diamond_w_eval diamond_w_path by simp

end
